theory Spec2Isabelle
  imports Main "HOL-Library.Char_ord" "HOL-Library.List_Lexorder"
begin

section \<open>Parsed JSON values and Python's dynamic operations on them\<close>

text \<open>
  The program receives the value that \<^verbatim>\<open>json.load\<close> returns. A JSON object is a Python
  \<^verbatim>\<open>dict\<close> with string keys, modelled as an association list with pairwise different
  keys (looked up with \<open>map_of\<close>). JSON numbers are modelled as Python \<^verbatim>\<open>int\<close>s; numbers
  with a fraction or an exponent (Python \<^verbatim>\<open>float\<close>s) are outside the model. Strings are
  lists of 8-bit characters; case conversion is modelled on ASCII letters only.
\<close>

datatype json =
    JNull
  | JBool bool
  | JInt int
  | JStr string
  | JArr "json list"
  | JObj "(string \<times> json) list"

text \<open>The exceptions the program can raise: the explicit \<^verbatim>\<open>ValueError\<close> of
  \<^verbatim>\<open>from_json\<close>, and the two that Python raises by itself on a value of the wrong shape.\<close>

datatype error = ValueError | TypeError | AttributeError

definition ebind :: "error + 'a \<Rightarrow> ('a \<Rightarrow> error + 'b) \<Rightarrow> error + 'b" where
  "ebind m f = (case m of Inl e \<Rightarrow> Inl e | Inr x \<Rightarrow> f x)"

text \<open>Truth value of a Python object (\<^verbatim>\<open>if x\<close>, \<^verbatim>\<open>x or y\<close>).\<close>

fun truthy :: "json \<Rightarrow> bool" where
  "truthy JNull = False"
| "truthy (JBool b) = b"
| "truthy (JInt n) = (n \<noteq> 0)"
| "truthy (JStr s) = (s \<noteq> [])"
| "truthy (JArr xs) = (xs \<noteq> [])"
| "truthy (JObj kvs) = (kvs \<noteq> [])"

definition py_or :: "json \<Rightarrow> json \<Rightarrow> json" where
  "py_or a b = (if truthy a then a else b)"

text \<open>\<^verbatim>\<open>d.get(k)\<close> and \<^verbatim>\<open>d.get(k, default)\<close>: only a dict has the method.\<close>

definition get_default :: "json \<Rightarrow> string \<Rightarrow> json \<Rightarrow> error + json" where
  "get_default d k dflt =
     (case d of
        JObj kvs \<Rightarrow> Inr (case map_of kvs k of None \<Rightarrow> dflt | Some v \<Rightarrow> v)
      | _ \<Rightarrow> Inl AttributeError)"

definition get :: "json \<Rightarrow> string \<Rightarrow> error + json" where
  "get d k = get_default d k JNull"

text \<open>\<^verbatim>\<open>d.get(k1) or d.get(k2) or ... or d.get(kn)\<close>: the first truthy field, else the
  value of the last one.\<close>

fun get_or :: "json \<Rightarrow> string list \<Rightarrow> error + json" where
  "get_or d [] = Inr JNull"
| "get_or d [k] = get d k"
| "get_or d (k # ks) = ebind (get d k) (\<lambda>v. if truthy v then Inr v else get_or d ks)"

text \<open>\<^verbatim>\<open>for x in v\<close>: a list yields its elements, a dict its keys, a string its
  characters; the other values are not iterable.\<close>

definition py_iter :: "json \<Rightarrow> error + json list" where
  "py_iter v =
     (case v of
        JArr xs \<Rightarrow> Inr xs
      | JObj kvs \<Rightarrow> Inr (map (\<lambda>kv. JStr (fst kv)) kvs)
      | JStr s \<Rightarrow> Inr (map (\<lambda>c. JStr [c]) s)
      | _ \<Rightarrow> Inl TypeError)"

text \<open>Python's \<^verbatim>\<open>==\<close> on parsed JSON: \<^verbatim>\<open>True == 1\<close> and \<^verbatim>\<open>False == 0\<close>, lists compare
  element by element, dicts as mappings. \<open>norm\<close> maps equal values to one representative.\<close>

fun norm :: "json \<Rightarrow> json" where
  "norm (JBool b) = JInt (if b then 1 else 0)"
| "norm (JArr xs) = JArr (map norm xs)"
| "norm (JObj kvs) = JObj (sort_key fst (map (\<lambda>kv. (fst kv, norm (snd kv))) kvs))"
| "norm v = v"

definition py_eq :: "json \<Rightarrow> json \<Rightarrow> bool" where
  "py_eq a b = (norm a = norm b)"

text \<open>\<^verbatim>\<open>str(v)\<close> as an f-string applies it. The text of a value that is not a string
  (\<^verbatim>\<open>None\<close>, \<^verbatim>\<open>True\<close>, \<^verbatim>\<open>12\<close>, a list, a dict) is left to the parameter \<open>fmt\<close>.\<close>

definition py_str :: "(json \<Rightarrow> string) \<Rightarrow> json \<Rightarrow> string" where
  "py_str fmt v = (case v of JStr s \<Rightarrow> s | _ \<Rightarrow> fmt v)"

subsection \<open>Hashable values: dictionary keys and set elements\<close>

text \<open>Node ids are used as dictionary keys and set elements, so they are hashable:
  \<^verbatim>\<open>None\<close>, a bool, an int or a string. Hashing a list or a dict raises \<^verbatim>\<open>TypeError\<close>.\<close>

datatype key = KNone | KBool bool | KInt int | KStr string

definition to_key :: "json \<Rightarrow> error + key" where
  "to_key v =
     (case v of
        JNull \<Rightarrow> Inr KNone
      | JBool b \<Rightarrow> Inr (KBool b)
      | JInt n \<Rightarrow> Inr (KInt n)
      | JStr s \<Rightarrow> Inr (KStr s)
      | _ \<Rightarrow> Inl TypeError)"

fun json_of_key :: "key \<Rightarrow> json" where
  "json_of_key KNone = JNull"
| "json_of_key (KBool b) = JBool b"
| "json_of_key (KInt n) = JInt n"
| "json_of_key (KStr s) = JStr s"

text \<open>Two keys address the same slot when they are equal in Python: \<^verbatim>\<open>True\<close> and \<^verbatim>\<open>1\<close>
  are one key. \<open>hk\<close> picks the representative.\<close>

fun hk :: "key \<Rightarrow> key" where
  "hk (KBool b) = KInt (if b then 1 else 0)"
| "hk k = k"

text \<open>A \<^verbatim>\<open>dict\<close> is the list of its items in insertion order, a \<^verbatim>\<open>set\<close> the list of its
  elements. The order in which Python iterates a set depends on the hashes of its
  elements; the model iterates in insertion order. Membership does not depend on it.\<close>

definition key_in :: "key \<Rightarrow> key list \<Rightarrow> bool" where
  "key_in k ks = (hk k \<in> set (map hk ks))"

definition dict_get :: "(key \<times> 'v) list \<Rightarrow> key \<Rightarrow> 'v option" where
  "dict_get d k = map_of (map (\<lambda>kv. (hk (fst kv), snd kv)) d) (hk k)"

text \<open>\<^verbatim>\<open>d[k] = v\<close> keeps the key object and the position of an existing item.\<close>

fun dict_set :: "(key \<times> 'v) list \<Rightarrow> key \<Rightarrow> 'v \<Rightarrow> (key \<times> 'v) list" where
  "dict_set [] k v = [(k, v)]"
| "dict_set ((a, w) # d) k v =
     (if hk a = hk k then (a, v) # d else (a, w) # dict_set d k v)"

definition setdefault :: "(key \<times> 'v) list \<Rightarrow> key \<Rightarrow> 'v \<Rightarrow> (key \<times> 'v) list" where
  "setdefault d k v = (if key_in k (map fst d) then d else d @ [(k, v)])"

definition set_add :: "key list \<Rightarrow> key \<Rightarrow> key list" where
  "set_add ks k = (if key_in k ks then ks else ks @ [k])"

text \<open>\<^verbatim>\<open>set(xs)\<close> and \<^verbatim>\<open>s.update(xs)\<close>.\<close>

definition set_update :: "key list \<Rightarrow> key list \<Rightarrow> key list" where
  "set_update ks xs = fold (\<lambda>x acc. set_add acc x) xs ks"

definition py_set :: "key list \<Rightarrow> key list" where
  "py_set xs = set_update [] xs"

text \<open>\<^verbatim>\<open>sorted(xs)\<close> on keys. Python compares numbers with numbers and strings with
  strings; any other comparison raises \<^verbatim>\<open>TypeError\<close>, and a list of fewer than two
  elements is never compared. The sort is stable.\<close>

fun is_num :: "key \<Rightarrow> bool" where
  "is_num (KBool b) = True"
| "is_num (KInt n) = True"
| "is_num k = False"

fun num_of :: "key \<Rightarrow> int" where
  "num_of (KBool b) = (if b then 1 else 0)"
| "num_of (KInt n) = n"
| "num_of k = 0"

fun is_kstr :: "key \<Rightarrow> bool" where
  "is_kstr (KStr s) = True"
| "is_kstr k = False"

fun kstr_of :: "key \<Rightarrow> string" where
  "kstr_of (KStr s) = s"
| "kstr_of k = []"

definition py_sorted :: "key list \<Rightarrow> error + key list" where
  "py_sorted ks =
     (if length ks \<le> 1 then Inr ks
      else if list_all is_num ks then Inr (sort_key num_of ks)
      else if list_all is_kstr ks then Inr (sort_key kstr_of ks)
      else Inl TypeError)"

section \<open>The SBOM graph\<close>

text \<open>\<^verbatim>\<open>class SBOM\<close>: \<open>nodes\<close> maps a node id to its label, \<open>edges\<close> is the
  \<^verbatim>\<open>defaultdict(set)\<close> from a node id to the set of its children, \<open>roots\<close> is a set.
  A label is whatever value was stored: a string for a declared component, the id itself
  for a placeholder.\<close>

record sbom =
  nodes :: "(key \<times> json) list"
  edges :: "(key \<times> key list) list"
  roots :: "key list"

definition SBOM :: sbom where
  "SBOM = \<lparr>nodes = [], edges = [], roots = []\<rparr>"

text \<open>\<^verbatim>\<open>s.edges[a]\<close> on the defaultdict: a missing key is inserted with the empty set.
  The result is the dictionary after the access and the set found there.\<close>

definition edges_index :: "(key \<times> key list) list \<Rightarrow> key \<Rightarrow> (key \<times> key list) list \<times> key list" where
  "edges_index E a =
     (case dict_get E a of
        None \<Rightarrow> (E @ [(a, [])], [])
      | Some cs \<Rightarrow> (E, cs))"

text \<open>\<^verbatim>\<open>s.edges[a].add(b)\<close>\<close>

definition edges_add :: "(key \<times> key list) list \<Rightarrow> key \<Rightarrow> key \<Rightarrow> (key \<times> key list) list" where
  "edges_add E a b = (case edges_index E a of (E', cs) \<Rightarrow> dict_set E' a (set_add cs b))"

text \<open>\<^verbatim>\<open>{k for kids in s.edges.values() for k in kids}\<close>\<close>

definition all_children :: "(key \<times> key list) list \<Rightarrow> key list" where
  "all_children E = py_set (concat (map snd E))"

text \<open>\<^verbatim>\<open>b in s.edges.get(a, [])\<close>: the graph has the edge from \<open>a\<close> to \<open>b\<close>.\<close>

definition has_edge :: "sbom \<Rightarrow> key \<Rightarrow> key \<Rightarrow> bool" where
  "has_edge s a b = (case dict_get (edges s) a of None \<Rightarrow> False | Some cs \<Rightarrow> key_in b cs)"

section \<open>CycloneDX\<close>

definition cx_id :: "json \<Rightarrow> error + json" where
  "cx_id c = get_or c [''bom-ref'', ''bomRef'', ''purl'', ''name'']"

definition cx_label :: "(json \<Rightarrow> string) \<Rightarrow> json \<Rightarrow> error + json" where
  "cx_label fmt c =
     ebind (get_or c [''name'', ''group'', ''type'']) (\<lambda>n.
     ebind (get c ''version'') (\<lambda>version.
     ebind (get c ''group'') (\<lambda>group.
       let name = py_or n (JStr ''component'');
           label = (if truthy group \<and> \<not> py_eq group name
                    then JStr (py_str fmt group @ ''/'' @ py_str fmt name) else name)
       in Inr (if truthy version
               then JStr (py_str fmt label @ ''@'' @ py_str fmt version) else label))))"

text \<open>The component pass (lines 46 to 49).\<close>

fun cdx_components :: "(json \<Rightarrow> string) \<Rightarrow> json list \<Rightarrow> sbom \<Rightarrow> error + sbom" where
  "cdx_components fmt [] s = Inr s"
| "cdx_components fmt (c # cs) s =
     ebind (cx_id c) (\<lambda>cid.
       if truthy cid then
         ebind (cx_label fmt c) (\<lambda>l.
         ebind (to_key cid) (\<lambda>k.
           cdx_components fmt cs (s\<lparr>nodes := dict_set (nodes s) k l\<rparr>)))
       else cdx_components fmt cs s)"

text \<open>\<^verbatim>\<open>metadata.component\<close> (lines 51 to 58). The result carries \<^verbatim>\<open>root_id\<close>: \<open>Some\<close>
  of the id when it is truthy, \<open>None\<close> when \<^verbatim>\<open>not root_id\<close> (every later use is under
  \<^verbatim>\<open>if root_id\<close>).\<close>

definition meta_component :: "json \<Rightarrow> error + json" where
  "meta_component obj =
     ebind (get_default obj ''metadata'' (JObj [])) (\<lambda>m. get (py_or m (JObj [])) ''component'')"

definition cdx_metadata :: "(json \<Rightarrow> string) \<Rightarrow> json \<Rightarrow> sbom \<Rightarrow> error + (sbom \<times> key option)" where
  "cdx_metadata fmt obj s =
     ebind (meta_component obj) (\<lambda>meta_comp.
       if truthy meta_comp then
         ebind (cx_id meta_comp) (\<lambda>root_id.
           if truthy root_id then
             ebind (cx_label fmt meta_comp) (\<lambda>l.
             ebind (to_key root_id) (\<lambda>r.
               Inr (s\<lparr>nodes := setdefault (nodes s) r l, roots := set_add (roots s) r\<rparr>,
                    Some r)))
           else Inr (s, None))
       else Inr (s, None))"

text \<open>The top-level \<^verbatim>\<open>dependencies\<close> section (lines 60 to 68).\<close>

fun cdx_depends_on :: "key \<Rightarrow> json list \<Rightarrow> sbom \<Rightarrow> error + sbom" where
  "cdx_depends_on ref [] s = Inr s"
| "cdx_depends_on ref (child # cs) s =
     (if \<not> truthy child then cdx_depends_on ref cs s
      else ebind (to_key child) (\<lambda>c.
             cdx_depends_on ref cs
               (s\<lparr>nodes := setdefault (nodes s) c (json_of_key c),
                  edges := edges_add (edges s) ref c\<rparr>)))"

fun cdx_dependencies :: "json list \<Rightarrow> sbom \<Rightarrow> error + sbom" where
  "cdx_dependencies [] s = Inr s"
| "cdx_dependencies (dep # ds) s =
     ebind (get dep ''ref'') (\<lambda>ref.
       if \<not> truthy ref then cdx_dependencies ds s
       else
         ebind (to_key ref) (\<lambda>r.
         ebind (get dep ''dependsOn'') (\<lambda>d.
         ebind (py_iter (py_or d (JArr []))) (\<lambda>children.
         ebind (cdx_depends_on r children
                  (s\<lparr>nodes := setdefault (nodes s) r (json_of_key r)\<rparr>)) (\<lambda>s'.
           cdx_dependencies ds s')))))"

text \<open>The fallback over the components' own \<^verbatim>\<open>dependencies\<close> lists (lines 71 to 78).
  The source id is hashed inside the inner loop, once per child, and neither the source
  nor the child is tested for truth.\<close>

fun cdx_inline_children :: "json \<Rightarrow> json list \<Rightarrow> sbom \<Rightarrow> error + sbom" where
  "cdx_inline_children src [] s = Inr s"
| "cdx_inline_children src (child # cs) s =
     ebind (to_key src) (\<lambda>a.
     ebind (to_key child) (\<lambda>c.
       cdx_inline_children src cs
         (s\<lparr>nodes := setdefault (setdefault (nodes s) a (json_of_key a)) c (json_of_key c),
            edges := edges_add (edges s) a c\<rparr>)))"

fun cdx_inline :: "json list \<Rightarrow> sbom \<Rightarrow> error + sbom" where
  "cdx_inline [] s = Inr s"
| "cdx_inline (c # cs) s =
     ebind (cx_id c) (\<lambda>src.
     ebind (get c ''dependencies'') (\<lambda>d.
       case py_or d (JArr []) of
         JArr children \<Rightarrow> ebind (cdx_inline_children src children s) (\<lambda>s'. cdx_inline cs s')
       | _ \<Rightarrow> cdx_inline cs s))"

text \<open>Lines 44 to 68: the component pass, the metadata component and the top-level
  dependencies. Returns the graph built so far, \<^verbatim>\<open>root_id\<close> and \<^verbatim>\<open>comps\<close>.\<close>

definition cdx_collect ::
  "(json \<Rightarrow> string) \<Rightarrow> json \<Rightarrow> error + (sbom \<times> key option \<times> json list)" where
  "cdx_collect fmt obj =
     ebind (get_default obj ''components'' (JArr [])) (\<lambda>cv.
     ebind (py_iter (py_or cv (JArr []))) (\<lambda>comps.
     ebind (cdx_components fmt comps SBOM) (\<lambda>s1.
     ebind (cdx_metadata fmt obj s1) (\<lambda>(s2, root_id).
     ebind (get_default obj ''dependencies'' (JArr [])) (\<lambda>dv.
     ebind (py_iter (py_or dv (JArr []))) (\<lambda>deps.
     ebind (cdx_dependencies deps s2) (\<lambda>s3. Inr (s3, root_id, comps))))))))"

text \<open>Lines 44 to 78: everything before root inference; the fallback runs when the
  edge map is still empty and there are components.\<close>

definition cdx_build :: "(json \<Rightarrow> string) \<Rightarrow> json \<Rightarrow> error + (sbom \<times> key option)" where
  "cdx_build fmt obj =
     ebind (cdx_collect fmt obj) (\<lambda>(s3, root_id, comps).
       if edges s3 = [] \<and> comps \<noteq> []
       then ebind (cdx_inline comps s3) (\<lambda>s4. Inr (s4, root_id))
       else Inr (s3, root_id))"

text \<open>Lines 80 to 93: root inference, the declared root's override, and the edges
  synthesized under a declared root that has none.\<close>

definition top_level :: "sbom \<Rightarrow> key list" where
  "top_level s =
     filter (\<lambda>r. \<not> key_in r (all_children (edges s))) (map fst (edges s))"

definition cdx_roots :: "sbom \<Rightarrow> key option \<Rightarrow> error + sbom" where
  "cdx_roots s root_id =
     (let candidates = filter (\<lambda>k. \<not> key_in k (all_children (edges s))) (map fst (nodes s));
          s1 = (if candidates \<noteq> [] then s\<lparr>roots := set_update (roots s) candidates\<rparr> else s)
      in case root_id of
           None \<Rightarrow> Inr s1
         | Some r \<Rightarrow>
             let s2 = s1\<lparr>roots := [r]\<rparr>
             in if key_in r (map fst (nodes s2)) \<and> \<not> key_in r (map fst (edges s2))
                then ebind (py_sorted (top_level s2)) (\<lambda>tl.
                       if tl \<noteq> [] then Inr (s2\<lparr>edges := dict_set (edges s2) r (py_set tl)\<rparr>)
                       else Inr s2)
                else Inr s2)"

definition from_cyclonedx :: "(json \<Rightarrow> string) \<Rightarrow> json \<Rightarrow> error + sbom" where
  "from_cyclonedx fmt obj = ebind (cdx_build fmt obj) (\<lambda>(s, root_id). cdx_roots s root_id)"

section \<open>SPDX\<close>

definition spdx_id :: "json \<Rightarrow> error + json" where
  "spdx_id pkg = get_or pkg [''SPDXID'', ''spdxid'']"

definition spdx_pkg_label :: "(json \<Rightarrow> string) \<Rightarrow> json \<Rightarrow> error + json" where
  "spdx_pkg_label fmt pkg =
     ebind (get pkg ''name'') (\<lambda>n.
     ebind (get_or pkg [''versionInfo'', ''version'']) (\<lambda>version.
       let name = py_or n (JStr ''package'')
       in Inr (if \<not> truthy version then name
               else JStr (py_str fmt name @ ''@'' @ py_str fmt version))))"

text \<open>The package pass (lines 104 to 107).\<close>

fun spdx_packages :: "(json \<Rightarrow> string) \<Rightarrow> json list \<Rightarrow> sbom \<Rightarrow> error + sbom" where
  "spdx_packages fmt [] s = Inr s"
| "spdx_packages fmt (pkg # ps) s =
     ebind (spdx_id pkg) (\<lambda>sid.
       if truthy sid then
         ebind (spdx_pkg_label fmt pkg) (\<lambda>l.
         ebind (to_key sid) (\<lambda>k.
           spdx_packages fmt ps (s\<lparr>nodes := dict_set (nodes s) k l\<rparr>)))
       else spdx_packages fmt ps s)"

definition reverse_types :: "string list" where
  "reverse_types =
     [''RUNTIME_DEPENDENCY_OF'', ''BUILD_DEPENDENCY_OF'', ''DEV_DEPENDENCY_OF'',
      ''TEST_DEPENDENCY_OF'', ''OPTIONAL_DEPENDENCY_OF'',
      ''STATIC_LINK'', ''DYNAMIC_LINK'',
      ''DATA_FILE_OF'', ''EXAMPLE_OF'', ''GENERATED_FROM'', ''PATCH_FOR'',
      ''PREREQUISITE_FOR'', ''AMENDS'', ''DEPENDENCY_MANIFEST_OF'']"

definition forward_types :: "string list" where
  "forward_types = [''DEPENDS_ON'', ''PREREQUISITE'']"

text \<open>\<^verbatim>\<open>str.upper\<close>, \<^verbatim>\<open>str.lower\<close> and \<^verbatim>\<open>str.replace("-", "_")\<close>, on ASCII.\<close>

definition upper_char :: "char \<Rightarrow> char" where
  "upper_char c =
     (if CHR ''a'' \<le> c \<and> c \<le> CHR ''z'' then char_of (of_char c - (32::nat)) else c)"

definition lower_char :: "char \<Rightarrow> char" where
  "lower_char c =
     (if CHR ''A'' \<le> c \<and> c \<le> CHR ''Z'' then char_of (of_char c + (32::nat)) else c)"

definition upper :: "string \<Rightarrow> string" where
  "upper s = map upper_char s"

definition lower :: "string \<Rightarrow> string" where
  "lower s = map lower_char s"

definition hyphens_to_underscores :: "string \<Rightarrow> string" where
  "hyphens_to_underscores s = map (\<lambda>c. if c = CHR ''-'' then CHR ''_'' else c) s"

text \<open>\<^verbatim>\<open>(rel.get("relationshipType") or "").upper().replace("-", "_")\<close>: a truthy value
  that is not a string has no \<^verbatim>\<open>upper\<close>.\<close>

definition rel_type :: "json \<Rightarrow> error + string" where
  "rel_type rel =
     ebind (get rel ''relationshipType'') (\<lambda>t.
       case py_or t (JStr []) of
         JStr s \<Rightarrow> Inr (hyphens_to_underscores (upper s))
       | _ \<Rightarrow> Inl AttributeError)"

text \<open>One turn of the relationship loop (lines 119 to 128); \<^verbatim>\<open>continue\<close> returns the
  graph as it is.\<close>

definition spdx_relationship :: "json \<Rightarrow> sbom \<Rightarrow> error + sbom" where
  "spdx_relationship rel s =
     ebind (rel_type rel) (\<lambda>rt.
     ebind (get_or rel [''spdxElementId'', ''sourceElement'']) (\<lambda>src.
     ebind (get_or rel [''relatedSpdxElement'', ''targetElement'']) (\<lambda>dst.
       if \<not> truthy src \<or> \<not> truthy dst then Inr s
       else
         ebind (to_key src) (\<lambda>a.
         ebind (to_key dst) (\<lambda>b.
           let N = setdefault (setdefault (nodes s) a (json_of_key a)) b (json_of_key b)
           in Inr (s\<lparr>nodes := N,
                     edges := (if rt \<in> set forward_types then edges_add (edges s) a b
                               else if rt \<in> set reverse_types then edges_add (edges s) b a
                               else edges s)\<rparr>))))))"

fun spdx_relationships :: "json list \<Rightarrow> sbom \<Rightarrow> error + sbom" where
  "spdx_relationships [] s = Inr s"
| "spdx_relationships (rel # rels) s =
     ebind (spdx_relationship rel s) (\<lambda>s'. spdx_relationships rels s')"

text \<open>\<^verbatim>\<open>documentDescribes\<close> (lines 130 to 134).\<close>

fun spdx_describes :: "json list \<Rightarrow> sbom \<Rightarrow> error + sbom" where
  "spdx_describes [] s = Inr s"
| "spdx_describes (rid # rids) s =
     ebind (to_key rid) (\<lambda>r.
       spdx_describes rids
         (if key_in r (map fst (nodes s)) then s\<lparr>roots := set_add (roots s) r\<rparr> else s))"

definition from_spdx :: "(json \<Rightarrow> string) \<Rightarrow> json \<Rightarrow> error + sbom" where
  "from_spdx fmt obj =
     ebind (get_default obj ''packages'' (JArr [])) (\<lambda>pv.
     ebind (py_iter (py_or pv (JArr []))) (\<lambda>pkgs.
     ebind (spdx_packages fmt pkgs SBOM) (\<lambda>s1.
     ebind (get_default obj ''relationships'' (JArr [])) (\<lambda>rv.
     ebind (py_iter (py_or rv (JArr []))) (\<lambda>rels.
     ebind (spdx_relationships rels s1) (\<lambda>s2.
     ebind (get obj ''documentDescribes'') (\<lambda>dv.
     ebind (py_iter (case py_or dv (JArr []) of JStr d \<Rightarrow> JArr [JStr d] | desc \<Rightarrow> desc)) (\<lambda>desc.
     ebind (spdx_describes desc s2) (\<lambda>s3.
       if roots s3 = []
       then Inr (s3\<lparr>roots := filter (\<lambda>k. \<not> key_in k (all_children (edges s3)))
                                 (map fst (nodes s3))\<rparr>)
       else Inr s3)))))))))"

section \<open>Format detection\<close>

text \<open>\<^verbatim>\<open>isinstance(obj, dict)\<close>, \<^verbatim>\<open>k in obj\<close> and \<^verbatim>\<open>obj.get(k) == v\<close> on a dict.\<close>

fun is_dict :: "json \<Rightarrow> bool" where
  "is_dict (JObj kvs) = True"
| "is_dict v = False"

fun has_field :: "json \<Rightarrow> string \<Rightarrow> bool" where
  "has_field (JObj kvs) k = (k \<in> set (map fst kvs))"
| "has_field v k = False"

fun field_equals :: "json \<Rightarrow> string \<Rightarrow> json \<Rightarrow> bool" where
  "field_equals (JObj kvs) k v =
     py_eq (case map_of kvs k of None \<Rightarrow> JNull | Some w \<Rightarrow> w) v"
| "field_equals d k v = False"

definition is_cyclonedx :: "json \<Rightarrow> bool" where
  "is_cyclonedx obj \<longleftrightarrow>
     is_dict obj \<and>
     (field_equals obj ''bomFormat'' (JStr ''CycloneDX'')
      \<or> has_field obj ''components'' \<or> has_field obj ''dependencies'')"

definition is_spdx :: "json \<Rightarrow> bool" where
  "is_spdx obj \<longleftrightarrow>
     is_dict obj \<and> (has_field obj ''packages'' \<or> has_field obj ''relationships'')"

definition from_json :: "(json \<Rightarrow> string) \<Rightarrow> json \<Rightarrow> error + sbom" where
  "from_json fmt obj =
     (if is_cyclonedx obj then from_cyclonedx fmt obj
      else if is_spdx obj then from_spdx fmt obj
      else Inl ValueError)"

section \<open>Forest builder and traversals\<close>

fun is_jstr :: "json \<Rightarrow> bool" where
  "is_jstr (JStr s) = True"
| "is_jstr v = False"

fun jstr_of :: "json \<Rightarrow> string" where
  "jstr_of (JStr s) = s"
| "jstr_of v = []"

text \<open>\<^verbatim>\<open>sbom.nodes.get(k, k)\<close> and \<^verbatim>\<open>sbom.edges.get(k, [])\<close>: reads that leave the
  dictionaries as they are.\<close>

definition label_of :: "sbom \<Rightarrow> key \<Rightarrow> json" where
  "label_of g k = (case dict_get (nodes g) k of None \<Rightarrow> json_of_key k | Some l \<Rightarrow> l)"

definition children_of :: "sbom \<Rightarrow> key \<Rightarrow> key list" where
  "children_of g k = (case dict_get (edges g) k of None \<Rightarrow> [] | Some cs \<Rightarrow> cs)"

text \<open>\<^verbatim>\<open>sorted(xs, key=lambda rid: sbom.nodes.get(rid, rid).lower())\<close>: the keys are
  computed first, and a label that is not a string has no \<^verbatim>\<open>lower\<close>. The sort is stable;
  \<open>xs\<close> is the set in the order its iteration yields.\<close>

definition label_key :: "sbom \<Rightarrow> key \<Rightarrow> string" where
  "label_key g rid = lower (jstr_of (label_of g rid))"

definition sorted_by_label :: "sbom \<Rightarrow> key list \<Rightarrow> error + key list" where
  "sorted_by_label g xs =
     (if list_all (\<lambda>rid. is_jstr (label_of g rid)) xs then Inr (sort_key (label_key g) xs)
      else Inl AttributeError)"

definition build_forest :: "sbom \<Rightarrow> key list option \<Rightarrow> error + key list" where
  "build_forest g start_ids =
     (case start_ids of
        None \<Rightarrow> sorted_by_label g (roots g)
      | Some ids \<Rightarrow>
          if ids \<noteq> [] \<and> filter (\<lambda>rid. key_in rid (map fst (nodes g))) ids \<noteq> []
          then Inr (filter (\<lambda>rid. key_in rid (map fst (nodes g))) ids)
          else sorted_by_label g (roots g))"

subsection \<open>The ASCII renderer\<close>

text \<open>The options of \<^verbatim>\<open>ascii_trees\<close>. \<^verbatim>\<open>max_depth\<close> is any Python int or \<^verbatim>\<open>None\<close>.\<close>

record ascii_options =
  show_ids :: bool
  max_depth :: "int option"
  include_dupes :: bool

text \<open>The ids that occur as a child in the edge map, up to key equality.\<close>

definition targets :: "sbom \<Rightarrow> key set" where
  "targets g = hk ` set (concat (map snd (edges g)))"

definition indent :: "bool \<Rightarrow> string" where
  "indent is_last = (if is_last then ''    '' else ''|   '')"

definition at_limit :: "int option \<Rightarrow> nat \<Rightarrow> bool" where
  "at_limit md depth = (case md of None \<Rightarrow> False | Some m \<Rightarrow> int depth \<ge> m)"

text \<open>The first line of \<^verbatim>\<open>render\<close>, \<^verbatim>\<open>prefix + tee + node_text\<close>: without \<^verbatim>\<open>show_ids\<close>
  the label itself is concatenated, which raises \<^verbatim>\<open>TypeError\<close> unless it is a string.\<close>

definition node_line :: "(json \<Rightarrow> string) \<Rightarrow> sbom \<Rightarrow> bool \<Rightarrow> key \<Rightarrow> string \<Rightarrow> nat \<Rightarrow> error + string" where
  "node_line fmt g ids node prefix depth =
     (let label = label_of g node;
          tee = (if depth > 0 then ''+-- '' else [])
      in if ids
         then Inr (prefix @ tee @ py_str fmt label @ '' <'' @ py_str fmt (json_of_key node) @ ''>'')
         else (case label of JStr l \<Rightarrow> Inr (prefix @ tee @ l) | _ \<Rightarrow> Inl TypeError))"

text \<open>Termination: the ids of the edge map that are not yet on the ancestor path become
  fewer at every descent, and the loop over the children shortens its list.\<close>

lemma finite_targets [simp]: "finite (targets g)"
  by (simp add: targets_def)

lemma children_of_targets: "hk ` set (children_of g n) \<subseteq> targets g"
proof (cases "dict_get (edges g) n")
  case None
  then show ?thesis by (simp add: children_of_def)
next
  case (Some cs)
  then have "(hk n, cs) \<in> set (map (\<lambda>kv. (hk (fst kv), snd kv)) (edges g))"
    unfolding dict_get_def by (rule map_of_SomeD)
  then have "cs \<in> set (map snd (edges g))" by force
  then show ?thesis using Some by (auto simp: children_of_def targets_def)
qed

lemma set_sorted_by_label: "sorted_by_label g xs = Inr ys \<Longrightarrow> set ys = set xs"
  by (auto simp: sorted_by_label_def split: if_splits)

definition unseen :: "sbom \<Rightarrow> key list \<Rightarrow> key list \<Rightarrow> nat" where
  "unseen g ks seen = card ((targets g \<union> hk ` set ks) - hk ` set seen)"

lemma unseen_mono: "hk ` set ks \<subseteq> targets g \<union> hk ` set ks' \<Longrightarrow> unseen g ks seen \<le> unseen g ks' seen"
  unfolding unseen_def by (rule card_mono) auto

lemma set_set_add: "hk ` set (set_add seen n) = insert (hk n) (hk ` set seen)"
  by (auto simp: set_add_def key_in_def)

lemma unseen_descend:
  assumes "\<not> key_in n seen" and "hk ` set ks \<subseteq> targets g"
  shows "unseen g ks (set_add seen n) < unseen g [n] seen"
  unfolding unseen_def
proof (rule psubset_card_mono)
  show "finite ((targets g \<union> hk ` set [n]) - hk ` set seen)" by simp
  have "hk n \<notin> hk ` set seen" using assms(1) by (simp add: key_in_def)
  then show "(targets g \<union> hk ` set ks) - hk ` set (set_add seen n)
               \<subset> (targets g \<union> hk ` set [n]) - hk ` set seen"
    using assms(2) by (auto simp: set_set_add)
qed

text \<open>The generator \<^verbatim>\<open>render\<close> and its loop over the children. The result is the list of
  lines yielded, and then either the exception raised or \<^verbatim>\<open>visited_global\<close> as the call
  leaves it. \<open>V\<close> is \<^verbatim>\<open>visited_global\<close> on entry; \<open>seen\<close> is the ancestor path, copied on
  descent (\<^verbatim>\<open>seen = seen | {node}\<close>). Python's recursion limit is not modelled.\<close>

function render ::
    "(json \<Rightarrow> string) \<Rightarrow> sbom \<Rightarrow> ascii_options \<Rightarrow> key \<Rightarrow> string \<Rightarrow> key list \<Rightarrow> bool \<Rightarrow> nat
       \<Rightarrow> key list \<Rightarrow> string list \<times> (error + key list)"
  and render_children ::
    "(json \<Rightarrow> string) \<Rightarrow> sbom \<Rightarrow> ascii_options \<Rightarrow> key list \<Rightarrow> string \<Rightarrow> key list \<Rightarrow> nat
       \<Rightarrow> key list \<Rightarrow> string list \<times> (error + key list)"
where
  "render fmt g opts node prefix seen is_last depth V =
     (case node_line fmt g (show_ids opts) node prefix depth of
        Inl e \<Rightarrow> ([], Inl e)
      | Inr line \<Rightarrow>
          if at_limit (max_depth opts) depth then ([line], Inr V)
          else if key_in node seen then ([line, prefix @ indent is_last @ ''+-- (cycle)''], Inr V)
          else (case sorted_by_label g (children_of g node) of
                  Inl e \<Rightarrow> ([line], Inl e)
                | Inr children \<Rightarrow>
                    (case render_children fmt g opts children (prefix @ indent is_last)
                            (set_add seen node) (depth + 1) V of
                       (ls, res) \<Rightarrow> (line # ls, res))))"
| "render_children fmt g opts [] next_prefix seen depth V = ([], Inr V)"
| "render_children fmt g opts (child # rest) next_prefix seen depth V =
     (if \<not> include_dupes opts \<and> key_in child V then
        (case label_of g child of
           JStr l \<Rightarrow>
             (case render_children fmt g opts rest next_prefix seen depth V of
                (ls, res) \<Rightarrow> ((next_prefix @ ''+-- '' @ l @ ''  (seen)'') # ls, res))
         | _ \<Rightarrow> ([], Inl TypeError))
      else
        (case render fmt g opts child next_prefix seen (rest = []) depth (set_add V child) of
           (ls, Inl e) \<Rightarrow> (ls, Inl e)
         | (ls, Inr V') \<Rightarrow>
             (case render_children fmt g opts rest next_prefix seen depth V' of
                (ls', res) \<Rightarrow> (ls @ ls', res))))"
  by pat_completeness auto

text \<open>Every chain of recursive calls is finite: every argument is in the domain of the
  recursion.\<close>

lemma render_dom_total: "All render_render_children_dom"
proof (relation "measures
    [\<lambda>x. case x of
            Inl (fmt, g, opts, node, prefix, seen, is_last, depth, V) \<Rightarrow> unseen g [node] seen
          | Inr (fmt, g, opts, children, prefix, seen, depth, V) \<Rightarrow> unseen g children seen,
     \<lambda>x. case x of
            Inl (fmt, g, opts, node, prefix, seen, is_last, depth, V) \<Rightarrow> 0
          | Inr (fmt, g, opts, children, prefix, seen, depth, V) \<Rightarrow> Suc (length children)]",
    goal_cases)
  case 1
  show ?case by simp
next
  case (2 fmt g opts node prefix seen is_last depth V line children)
  have "hk ` set children \<subseteq> targets g"
    using set_sorted_by_label[OF 2(4)] children_of_targets[of g node] by simp
  from unseen_descend[OF 2(3) this] show ?case by simp
next
  case (3 fmt g opts child rest next_prefix seen depth V l)
  have "unseen g rest seen \<le> unseen g (child # rest) seen"
    by (rule unseen_mono) auto
  then show ?case by auto
next
  case (4 fmt g opts child rest next_prefix seen depth V)
  have "unseen g [child] seen \<le> unseen g (child # rest) seen"
    by (rule unseen_mono) auto
  then show ?case by auto
next
  case (5 fmt g opts child rest next_prefix seen depth V)
  have "unseen g rest seen \<le> unseen g (child # rest) seen"
    by (rule unseen_mono) auto
  then show ?case by auto
qed

termination render
  by (rule render_dom_total)

declare render.simps [simp del]

text \<open>\<^verbatim>\<open>for r in roots: for line in render(r, "", set(), True, 0): print(line); print()\<close>\<close>

fun ascii_roots ::
  "(json \<Rightarrow> string) \<Rightarrow> sbom \<Rightarrow> ascii_options \<Rightarrow> key list \<Rightarrow> key list \<Rightarrow> string list \<times> (error + key list)" where
  "ascii_roots fmt g opts [] V = ([], Inr V)"
| "ascii_roots fmt g opts (r # rs) V =
     (case render fmt g opts r [] [] True 0 V of
        (ls, Inl e) \<Rightarrow> (ls, Inl e)
      | (ls, Inr V') \<Rightarrow>
          (case ascii_roots fmt g opts rs V' of
             (ls', res) \<Rightarrow> (ls @ [[]] @ ls', res)))"

definition ascii_trees ::
  "(json \<Rightarrow> string) \<Rightarrow> sbom \<Rightarrow> key list \<Rightarrow> ascii_options \<Rightarrow> string list \<times> error option" where
  "ascii_trees fmt g rs opts =
     (case ascii_roots fmt g opts rs [] of
        (ls, Inl e) \<Rightarrow> (ls, Some e)
      | (ls, Inr V) \<Rightarrow> (ls, None))"

subsection \<open>The tree structure for the HTML viewer\<close>

text \<open>\<^verbatim>\<open>{"name": ..., "children": [...]}\<close>. The name is the label as stored; the cycle
  marker is a space and U+21BA, written here in UTF-8.\<close>

datatype tree = Tree (tree_name: json) (tree_children: "tree list")

definition cycle_mark :: string where
  "cycle_mark = [CHR '' '', CHR 0xE2, CHR 0x86, CHR 0xBA]"

function make_node :: "sbom \<Rightarrow> key \<Rightarrow> key list \<Rightarrow> error + tree"
  and make_nodes :: "sbom \<Rightarrow> key list \<Rightarrow> key list \<Rightarrow> error + tree list"
where
  "make_node g node seen =
     (if key_in node seen then
        (case label_of g node of
           JStr l \<Rightarrow> Inr (Tree (JStr (l @ cycle_mark)) [])
         | _ \<Rightarrow> Inl TypeError)
      else
        (case sorted_by_label g (children_of g node) of
           Inl e \<Rightarrow> Inl e
         | Inr kids \<Rightarrow>
             (case make_nodes g kids (set_add seen node) of
                Inl e \<Rightarrow> Inl e
              | Inr ts \<Rightarrow> Inr (Tree (label_of g node) ts))))"
| "make_nodes g [] seen = Inr []"
| "make_nodes g (k # ks) seen =
     (case make_node g k seen of
        Inl e \<Rightarrow> Inl e
      | Inr t \<Rightarrow>
          (case make_nodes g ks seen of
             Inl e \<Rightarrow> Inl e
           | Inr ts \<Rightarrow> Inr (t # ts)))"
  by pat_completeness auto

text \<open>Every chain of recursive calls is finite: every argument is in the domain of the
  recursion.\<close>

lemma make_node_dom_total: "All make_node_make_nodes_dom"
proof (relation "measures
    [\<lambda>x. case x of
            Inl (g, node, seen) \<Rightarrow> unseen g [node] seen
          | Inr (g, ks, seen) \<Rightarrow> unseen g ks seen,
     \<lambda>x. case x of
            Inl (g, node, seen) \<Rightarrow> 0
          | Inr (g, ks, seen) \<Rightarrow> Suc (length ks)]",
    goal_cases)
  case 1
  show ?case by simp
next
  case (2 g node seen kids)
  have "hk ` set kids \<subseteq> targets g"
    using set_sorted_by_label[OF 2(2)] children_of_targets[of g node] by simp
  from unseen_descend[OF 2(1) this] show ?case by simp
next
  case (3 g k ks seen)
  have "unseen g [k] seen \<le> unseen g (k # ks) seen"
    by (rule unseen_mono) auto
  then show ?case by auto
next
  case (4 g k ks seen)
  have "unseen g ks seen \<le> unseen g (k # ks) seen"
    by (rule unseen_mono) auto
  then show ?case by auto
qed

termination make_node
  by (rule make_node_dom_total)

declare make_node.simps [simp del]

definition to_d3_tree :: "sbom \<Rightarrow> key list \<Rightarrow> error + tree" where
  "to_d3_tree g rs =
     (case rs of
        [r] \<Rightarrow> make_node g r []
      | _ \<Rightarrow> (case make_nodes g rs [] of
                Inl e \<Rightarrow> Inl e
              | Inr ts \<Rightarrow> Inr (Tree (JStr ''SBOM Roots'') ts)))"

subsection \<open>The DOT emitter\<close>

text \<open>The breadth-first search of \<^verbatim>\<open>to_dot\<close>: \<open>dq\<close> is the deque, \<open>reachable\<close> the set
  collected so far, shared by the searches from all roots.\<close>

function bfs :: "sbom \<Rightarrow> key list \<Rightarrow> key list \<Rightarrow> key list" where
  "bfs g [] reachable = reachable"
| "bfs g (n # dq) reachable =
     (if key_in n reachable then bfs g dq reachable
      else bfs g (dq @ children_of g n) (set_add reachable n))"
  by pat_completeness auto

termination
proof (relation "measures [\<lambda>(g, dq, reachable). unseen g dq reachable, \<lambda>(g, dq, reachable). length dq]",
    goal_cases)
  case 1
  show ?case by simp
next
  case (2 g n dq reachable)
  have "unseen g dq reachable \<le> unseen g (n # dq) reachable"
    by (rule unseen_mono) auto
  then show ?case by auto
next
  case (3 g n dq reachable)
  have "unseen g (dq @ children_of g n) (set_add reachable n) < unseen g (n # dq) reachable"
    unfolding unseen_def
  proof (rule psubset_card_mono)
    show "finite ((targets g \<union> hk ` set (n # dq)) - hk ` set reachable)" by simp
    have "hk n \<notin> hk ` set reachable" using 3 by (simp add: key_in_def)
    then show "(targets g \<union> hk ` set (dq @ children_of g n)) - hk ` set (set_add reachable n)
                 \<subset> (targets g \<union> hk ` set (n # dq)) - hk ` set reachable"
      using children_of_targets[of g n] by (auto simp: set_set_add)
  qed
  then show ?case by simp
qed

text \<open>\<^verbatim>\<open>"\\n".join(lines)\<close> and \<^verbatim>\<open>label.replace('"', '\\"')\<close>\<close>

definition join_lines :: "string list \<Rightarrow> string" where
  "join_lines ls = (case ls of [] \<Rightarrow> [] | l # rest \<Rightarrow> l @ concat (map (\<lambda>x. CHR 0x0A # x) rest))"

definition escape_quotes :: "string \<Rightarrow> string" where
  "escape_quotes s = concat (map (\<lambda>c. if c = CHR 0x22 then [CHR 0x5C, CHR 0x22] else [c]) s)"

text \<open>The node lines and the edge lines. \<^verbatim>\<open>sorted\<close> here compares the ids themselves.\<close>

fun dot_nodes :: "(json \<Rightarrow> string) \<Rightarrow> sbom \<Rightarrow> key list \<Rightarrow> error + string list" where
  "dot_nodes fmt g [] = Inr []"
| "dot_nodes fmt g (n # ns) =
     (case label_of g n of
        JStr l \<Rightarrow>
          (case dot_nodes fmt g ns of
             Inl e \<Rightarrow> Inl e
           | Inr ls \<Rightarrow>
               Inr ((''  '' @ [CHR 0x22] @ py_str fmt (json_of_key n) @ [CHR 0x22] @ '' [label='' @ [CHR 0x22]
                     @ escape_quotes l @ [CHR 0x22] @ ''];'') # ls))
      | _ \<Rightarrow> Inl AttributeError)"

definition dot_edge_line :: "(json \<Rightarrow> string) \<Rightarrow> key \<Rightarrow> key \<Rightarrow> string" where
  "dot_edge_line fmt src dst =
     ''  '' @ [CHR 0x22] @ py_str fmt (json_of_key src) @ [CHR 0x22] @ '' -> '' @ [CHR 0x22]
       @ py_str fmt (json_of_key dst) @ [CHR 0x22] @ '';''"

fun dot_edges :: "(json \<Rightarrow> string) \<Rightarrow> sbom \<Rightarrow> key list \<Rightarrow> key list \<Rightarrow> error + string list" where
  "dot_edges fmt g reachable [] = Inr []"
| "dot_edges fmt g reachable (src # srcs) =
     (case py_sorted (children_of g src) of
        Inl e \<Rightarrow> Inl e
      | Inr dsts \<Rightarrow>
          (case dot_edges fmt g reachable srcs of
             Inl e \<Rightarrow> Inl e
           | Inr ls \<Rightarrow>
               Inr (map (dot_edge_line fmt src) (filter (\<lambda>dst. key_in dst reachable) dsts) @ ls)))"

definition reachable_from :: "sbom \<Rightarrow> key list \<Rightarrow> key list" where
  "reachable_from g rs = fold (\<lambda>root reachable. bfs g [root] reachable) rs []"

definition to_dot :: "(json \<Rightarrow> string) \<Rightarrow> sbom \<Rightarrow> key list \<Rightarrow> error + string" where
  "to_dot fmt g rs =
     (let reachable = reachable_from g rs in
      ebind (py_sorted reachable) (\<lambda>ns.
      ebind (dot_nodes fmt g ns) (\<lambda>node_lines.
      ebind (py_sorted reachable) (\<lambda>srcs.
      ebind (dot_edges fmt g reachable srcs) (\<lambda>edge_lines.
        Inr (join_lines ([''digraph SBOM {'', ''  rankdir=LR;'', ''  node [shape=box, fontsize=10];'']
                         @ node_lines @ edge_lines @ [''}'']))))))) "

subsection \<open>The traversals over a graph that is a shared mutable object\<close>

text \<open>The graph is one object that every traversal receives by reference. Here every
  access to it returns, besides the value read, the graph as the access leaves it, and
  the traversals pass the graph on from one access to the next.

  \<^verbatim>\<open>sbom.nodes.get(k, k)\<close>, \<^verbatim>\<open>sbom.edges.get(k, [])\<close> (on a \<^verbatim>\<open>defaultdict\<close>, \<^verbatim>\<open>get\<close> does not
  call the default factory), \<^verbatim>\<open>k in sbom.nodes\<close> and the iteration over \<^verbatim>\<open>sbom.roots\<close>.\<close>

definition nodes_get :: "sbom \<Rightarrow> key \<Rightarrow> json \<times> sbom" where
  "nodes_get g k = (case dict_get (nodes g) k of None \<Rightarrow> (json_of_key k, g) | Some l \<Rightarrow> (l, g))"

definition edges_get :: "sbom \<Rightarrow> key \<Rightarrow> key list \<times> sbom" where
  "edges_get g k = (case dict_get (edges g) k of None \<Rightarrow> ([], g) | Some cs \<Rightarrow> (cs, g))"

definition nodes_contains :: "sbom \<Rightarrow> key \<Rightarrow> bool \<times> sbom" where
  "nodes_contains g k = (key_in k (map fst (nodes g)), g)"

definition roots_iter :: "sbom \<Rightarrow> key list \<times> sbom" where
  "roots_iter g = (roots g, g)"

text \<open>\<^verbatim>\<open>sbom.edges[k]\<close>, which the normalizers use and the traversals do not: the
  \<^verbatim>\<open>defaultdict\<close> inserts a missing key.\<close>

definition edges_getitem :: "sbom \<Rightarrow> key \<Rightarrow> key list \<times> sbom" where
  "edges_getitem g k = (case edges_index (edges g) k of (E, cs) \<Rightarrow> (cs, g\<lparr>edges := E\<rparr>))"

text \<open>\<^verbatim>\<open>sorted(xs, key=lambda rid: sbom.nodes.get(rid, rid).lower())\<close>: the key function
  is called once for every element, in order; then the decorated list is sorted.\<close>

fun label_keys_st :: "sbom \<Rightarrow> key list \<Rightarrow> (error + string list) \<times> sbom" where
  "label_keys_st g [] = (Inr [], g)"
| "label_keys_st g (rid # xs) =
     (case nodes_get g rid of
        (JStr s, g1) \<Rightarrow>
          (case label_keys_st g1 xs of
             (Inl e, g2) \<Rightarrow> (Inl e, g2)
           | (Inr ks, g2) \<Rightarrow> (Inr (lower s # ks), g2))
      | (_, g1) \<Rightarrow> (Inl AttributeError, g1))"

definition sorted_by_label_st :: "sbom \<Rightarrow> key list \<Rightarrow> (error + key list) \<times> sbom" where
  "sorted_by_label_st g xs =
     (case label_keys_st g xs of
        (Inl e, g1) \<Rightarrow> (Inl e, g1)
      | (Inr ks, g1) \<Rightarrow> (Inr (map snd (sort_key fst (zip ks xs))), g1))"

text \<open>\<^verbatim>\<open>[rid for rid in start_ids if rid in sbom.nodes]\<close>\<close>

fun known_ids_st :: "sbom \<Rightarrow> key list \<Rightarrow> key list \<times> sbom" where
  "known_ids_st g [] = ([], g)"
| "known_ids_st g (rid # ids) =
     (case nodes_contains g rid of
        (b, g1) \<Rightarrow>
          (case known_ids_st g1 ids of
             (rs, g2) \<Rightarrow> (if b then rid # rs else rs, g2)))"

definition sorted_roots_st :: "sbom \<Rightarrow> (error + key list) \<times> sbom" where
  "sorted_roots_st g = (case roots_iter g of (rs, g1) \<Rightarrow> sorted_by_label_st g1 rs)"

definition build_forest_st :: "sbom \<Rightarrow> key list option \<Rightarrow> (error + key list) \<times> sbom" where
  "build_forest_st g start_ids =
     (case start_ids of
        None \<Rightarrow> sorted_roots_st g
      | Some ids \<Rightarrow>
          if ids \<noteq> [] then
            (case known_ids_st g ids of
               (rs, g1) \<Rightarrow> if rs \<noteq> [] then (Inr rs, g1) else sorted_roots_st g1)
          else sorted_roots_st g)"

definition node_line_st ::
    "(json \<Rightarrow> string) \<Rightarrow> sbom \<Rightarrow> bool \<Rightarrow> key \<Rightarrow> string \<Rightarrow> nat \<Rightarrow> (error + string) \<times> sbom" where
  "node_line_st fmt g ids node prefix depth =
     (case nodes_get g node of
        (label, g1) \<Rightarrow>
          (let tee = (if depth > 0 then ''+-- '' else [])
           in if ids
              then (Inr (prefix @ tee @ py_str fmt label @ '' <'' @ py_str fmt (json_of_key node) @ ''>''), g1)
              else (case label of JStr l \<Rightarrow> (Inr (prefix @ tee @ l), g1) | _ \<Rightarrow> (Inl TypeError, g1))))"

text \<open>The accesses return the graph they were given, and what the functions of the
  previous subsections read.\<close>

lemma nodes_get_pure: "nodes_get g k = (label_of g k, g)"
  by (simp add: nodes_get_def label_of_def split: option.splits)

lemma edges_get_pure: "edges_get g k = (children_of g k, g)"
  by (simp add: edges_get_def children_of_def split: option.splits)

lemma label_keys_st_pure:
  "label_keys_st g xs =
     (if list_all (\<lambda>rid. is_jstr (label_of g rid)) xs then Inr (map (label_key g) xs)
      else Inl AttributeError, g)"
proof (induction xs)
  case Nil
  then show ?case by simp
next
  case (Cons rid xs)
  show ?case
    by (cases "label_of g rid") (simp_all add: nodes_get_pure Cons label_key_def)
qed

lemma insort_key_decorated:
  "\<forall>p \<in> set ps. fst p = f (snd p) \<Longrightarrow>
     map snd (insort_key fst (f x, x) ps) = insort_key f x (map snd ps)"
  by (induction ps) auto

lemma sort_key_decorated:
  "map snd (sort_key fst (zip (map f xs) xs)) = sort_key f xs
   \<and> (\<forall>p \<in> set (sort_key fst (zip (map f xs) xs)). fst p = f (snd p))"
proof (induction xs)
  case Nil
  then show ?case by simp
next
  case (Cons x xs)
  then show ?case by (simp add: insort_key_decorated set_insort_key)
qed

lemma sorted_by_label_st_pure: "sorted_by_label_st g xs = (sorted_by_label g xs, g)"
  by (simp add: sorted_by_label_st_def label_keys_st_pure sorted_by_label_def sort_key_decorated)

lemma node_line_st_pure:
  "node_line_st fmt g ids node prefix depth = (node_line fmt g ids node prefix depth, g)"
  by (simp add: node_line_st_def node_line_def nodes_get_pure Let_def split: json.splits)

text \<open>The generator \<^verbatim>\<open>render\<close> of the ASCII renderer.\<close>

function render_st ::
    "(json \<Rightarrow> string) \<Rightarrow> sbom \<Rightarrow> ascii_options \<Rightarrow> key \<Rightarrow> string \<Rightarrow> key list \<Rightarrow> bool \<Rightarrow> nat
       \<Rightarrow> key list \<Rightarrow> (string list \<times> (error + key list)) \<times> sbom"
  and render_children_st ::
    "(json \<Rightarrow> string) \<Rightarrow> sbom \<Rightarrow> ascii_options \<Rightarrow> key list \<Rightarrow> string \<Rightarrow> key list \<Rightarrow> nat
       \<Rightarrow> key list \<Rightarrow> (string list \<times> (error + key list)) \<times> sbom"
where
  "render_st fmt g opts node prefix seen is_last depth V =
     (case node_line_st fmt g (show_ids opts) node prefix depth of
        (Inl e, g1) \<Rightarrow> (([], Inl e), g1)
      | (Inr line, g1) \<Rightarrow>
          if at_limit (max_depth opts) depth then (([line], Inr V), g1)
          else if key_in node seen then (([line, prefix @ indent is_last @ ''+-- (cycle)''], Inr V), g1)
          else (case edges_get g1 node of
                  (cs, g2) \<Rightarrow>
                    (case sorted_by_label_st g2 cs of
                       (Inl e, g3) \<Rightarrow> (([line], Inl e), g3)
                     | (Inr children, g3) \<Rightarrow>
                         (case render_children_st fmt g3 opts children (prefix @ indent is_last)
                                 (set_add seen node) (depth + 1) V of
                            ((ls, res), g4) \<Rightarrow> ((line # ls, res), g4)))))"
| "render_children_st fmt g opts [] next_prefix seen depth V = (([], Inr V), g)"
| "render_children_st fmt g opts (child # rest) next_prefix seen depth V =
     (if \<not> include_dupes opts \<and> key_in child V then
        (case nodes_get g child of
           (JStr l, g1) \<Rightarrow>
             (case render_children_st fmt g1 opts rest next_prefix seen depth V of
                ((ls, res), g2) \<Rightarrow> (((next_prefix @ ''+-- '' @ l @ ''  (seen)'') # ls, res), g2))
         | (_, g1) \<Rightarrow> (([], Inl TypeError), g1))
      else
        (case render_st fmt g opts child next_prefix seen (rest = []) depth (set_add V child) of
           ((ls, Inl e), g1) \<Rightarrow> ((ls, Inl e), g1)
         | ((ls, Inr V'), g1) \<Rightarrow>
             (case render_children_st fmt g1 opts rest next_prefix seen depth V' of
                ((ls', res), g2) \<Rightarrow> ((ls @ ls', res), g2))))"
  by pat_completeness auto

text \<open>Wherever the recursion ends, it returns the graph it was given, and the lines and
  the visited set of \<^verbatim>\<open>render\<close>.\<close>

lemma render_st_pure_dom:
  "render_st_render_children_st_dom (Inl (fmt, g, opts, node, prefix, seen, is_last, depth, V)) \<Longrightarrow>
     render_st fmt g opts node prefix seen is_last depth V =
       (render fmt g opts node prefix seen is_last depth V, g)"
  "render_st_render_children_st_dom (Inr (fmt, g, opts, cs, next_prefix, seen, depth, V)) \<Longrightarrow>
     render_children_st fmt g opts cs next_prefix seen depth V =
       (render_children fmt g opts cs next_prefix seen depth V, g)"
proof (induction rule: render_st_render_children_st.pinduct)
  case (1 fmt g opts node prefix seen is_last depth V)
  note psimp = render_st.psimps(1)[OF "1.hyps"]
  show ?case
  proof (cases "node_line fmt g (show_ids opts) node prefix depth")
    case (Inl e)
    then show ?thesis by (simp add: psimp node_line_st_pure render.simps)
  next
    case line: (Inr line)
    show ?thesis
    proof (cases "at_limit (max_depth opts) depth \<or> key_in node seen")
      case True
      then show ?thesis using line by (auto simp: psimp node_line_st_pure render.simps)
    next
      case False
      show ?thesis
      proof (cases "sorted_by_label g (children_of g node)")
        case (Inl e)
        then show ?thesis using line False
          by (simp add: psimp node_line_st_pure edges_get_pure sorted_by_label_st_pure render.simps)
      next
        case kids: (Inr kids)
        have "render_children_st fmt g opts kids (prefix @ indent is_last) (set_add seen node)
                (depth + 1) V =
              (render_children fmt g opts kids (prefix @ indent is_last) (set_add seen node)
                (depth + 1) V, g)"
          by (rule "1.IH"[of "Inr line" g line "children_of g node" g "Inr kids" g kids])
             (use line False kids in
               \<open>simp_all add: node_line_st_pure edges_get_pure sorted_by_label_st_pure\<close>)
        then show ?thesis using line False kids
          by (simp add: psimp node_line_st_pure edges_get_pure sorted_by_label_st_pure render.simps
              split: prod.splits)
      qed
    qed
  qed
next
  case (2 fmt g opts next_prefix seen depth V)
  then show ?case by (simp add: render_children_st.psimps(1))
next
  case (3 fmt g opts child rest next_prefix seen depth V)
  note psimp = render_children_st.psimps(2)[OF "3.hyps"]
  show ?case
  proof (cases "\<not> include_dupes opts \<and> key_in child V")
    case True
    show ?thesis
    proof (cases "is_jstr (label_of g child)")
      case False
      then show ?thesis using True
        by (cases "label_of g child") (simp_all add: psimp nodes_get_pure)
    next
      case str: True
      then obtain l where l: "label_of g child = JStr l" by (cases "label_of g child") simp_all
      have "render_children_st fmt g opts rest next_prefix seen depth V =
              (render_children fmt g opts rest next_prefix seen depth V, g)"
        by (rule "3.IH"(1)[of "JStr l" g l]) (use True l in \<open>simp_all add: nodes_get_pure\<close>)
      then show ?thesis using True l
        by (simp add: psimp nodes_get_pure split: prod.splits)
    qed
  next
    case False
    have r: "render_st fmt g opts child next_prefix seen (rest = []) depth (set_add V child) =
               (render fmt g opts child next_prefix seen (rest = []) depth (set_add V child), g)"
      by (rule "3.IH"(2)[OF False])
    have st: "render_children_st fmt g opts (child # rest) next_prefix seen depth V =
        (case render_st fmt g opts child next_prefix seen (rest = []) depth (set_add V child) of
           ((ls, Inl e), g1) \<Rightarrow> ((ls, Inl e), g1)
         | ((ls, Inr V'), g1) \<Rightarrow>
             (case render_children_st fmt g1 opts rest next_prefix seen depth V' of
                ((ls', res), g2) \<Rightarrow> ((ls @ ls', res), g2)))"
      unfolding psimp if_not_P[OF False] ..
    have pu: "render_children fmt g opts (child # rest) next_prefix seen depth V =
        (case render fmt g opts child next_prefix seen (rest = []) depth (set_add V child) of
           (ls, Inl e) \<Rightarrow> (ls, Inl e)
         | (ls, Inr V') \<Rightarrow>
             (case render_children fmt g opts rest next_prefix seen depth V' of
                (ls', res) \<Rightarrow> (ls @ ls', res)))"
      unfolding render_children.simps if_not_P[OF False] ..
    obtain ls res where lr:
      "render fmt g opts child next_prefix seen (rest = []) depth (set_add V child) = (ls, res)"
      by (cases "render fmt g opts child next_prefix seen (rest = []) depth (set_add V child)")
    show ?thesis
    proof (cases res)
      case (Inl e)
      show ?thesis unfolding st pu r lr Inl by simp
    next
      case (Inr V1)
      have "render_children_st fmt g opts rest next_prefix seen depth V1 =
              (render_children fmt g opts rest next_prefix seen depth V1, g)"
        by (rule "3.IH"(3)[OF False, of "(ls, res)" g ls res V1]) (use r lr Inr in simp_all)
      then show ?thesis unfolding st pu r lr Inr by (simp split: prod.splits)
    qed
  qed
qed

text \<open>Every chain of recursive calls is finite.\<close>

lemma render_st_dom_total: "All render_st_render_children_st_dom"
proof (relation "measures
    [\<lambda>x. case x of
            Inl (fmt, g, opts, node, prefix, seen, is_last, depth, V) \<Rightarrow> unseen g [node] seen
          | Inr (fmt, g, opts, children, prefix, seen, depth, V) \<Rightarrow> unseen g children seen,
     \<lambda>x. case x of
            Inl (fmt, g, opts, node, prefix, seen, is_last, depth, V) \<Rightarrow> 0
          | Inr (fmt, g, opts, children, prefix, seen, depth, V) \<Rightarrow> Suc (length children)]",
    goal_cases)
  case 1
  show ?case by simp
next
  case (2 fmt g opts node prefix seen is_last depth V x y b xa ya xb yb ba)
  from 2 have y: "y = g" by (simp add: node_line_st_pure)
  from 2 have ya: "ya = g" "xa = children_of g node"
    by (simp_all add: node_line_st_pure edges_get_pure)
  from 2 have yb: "yb = g" "sorted_by_label g (children_of g node) = Inr ba"
    by (simp_all add: node_line_st_pure edges_get_pure sorted_by_label_st_pure)
  have "hk ` set ba \<subseteq> targets g"
    using set_sorted_by_label[OF yb(2)] children_of_targets[of g node] by simp
  from unseen_descend[OF _ this, of node seen] 2 show ?case by (simp add: yb(1))
next
  case (3 fmt g opts child rest next_prefix seen depth V x y x4)
  from 3 have y: "y = g" by (simp add: nodes_get_pure)
  have "unseen g rest seen \<le> unseen g (child # rest) seen"
    by (rule unseen_mono) auto
  then show ?case by (auto simp: y)
next
  case (4 fmt g opts child rest next_prefix seen depth V)
  have "unseen g [child] seen \<le> unseen g (child # rest) seen"
    by (rule unseen_mono) auto
  then show ?case by auto
next
  case (5 fmt g opts child rest next_prefix seen depth V x y xa ya b)
  from 5 have y: "y = g" by (simp add: render_st_pure_dom(1))
  have "unseen g rest seen \<le> unseen g (child # rest) seen"
    by (rule unseen_mono) auto
  then show ?case by (auto simp: y)
qed

termination render_st
  by (rule render_st_dom_total)

declare render_st.simps [simp del]

text \<open>\<^verbatim>\<open>for r in roots: for line in render(r, "", set(), True, 0): print(line); print()\<close>\<close>

fun ascii_roots_st ::
  "(json \<Rightarrow> string) \<Rightarrow> sbom \<Rightarrow> ascii_options \<Rightarrow> key list \<Rightarrow> key list
     \<Rightarrow> (string list \<times> (error + key list)) \<times> sbom" where
  "ascii_roots_st fmt g opts [] V = (([], Inr V), g)"
| "ascii_roots_st fmt g opts (r # rs) V =
     (case render_st fmt g opts r [] [] True 0 V of
        ((ls, Inl e), g1) \<Rightarrow> ((ls, Inl e), g1)
      | ((ls, Inr V'), g1) \<Rightarrow>
          (case ascii_roots_st fmt g1 opts rs V' of
             ((ls', res), g2) \<Rightarrow> ((ls @ [[]] @ ls', res), g2)))"

definition ascii_trees_st ::
  "(json \<Rightarrow> string) \<Rightarrow> sbom \<Rightarrow> key list \<Rightarrow> ascii_options \<Rightarrow> (string list \<times> error option) \<times> sbom" where
  "ascii_trees_st fmt g rs opts =
     (case ascii_roots_st fmt g opts rs [] of
        ((ls, Inl e), g1) \<Rightarrow> ((ls, Some e), g1)
      | ((ls, Inr V), g1) \<Rightarrow> ((ls, None), g1))"

text \<open>\<^verbatim>\<open>make_node\<close> of the tree-structure builder.\<close>

function make_node_st :: "sbom \<Rightarrow> key \<Rightarrow> key list \<Rightarrow> (error + tree) \<times> sbom"
  and make_nodes_st :: "sbom \<Rightarrow> key list \<Rightarrow> key list \<Rightarrow> (error + tree list) \<times> sbom"
where
  "make_node_st g node seen =
     (case nodes_get g node of
        (label, g1) \<Rightarrow>
          if key_in node seen then
            (case label of
               JStr l \<Rightarrow> (Inr (Tree (JStr (l @ cycle_mark)) []), g1)
             | _ \<Rightarrow> (Inl TypeError, g1))
          else
            (case edges_get g1 node of
               (cs, g2) \<Rightarrow>
                 (case sorted_by_label_st g2 cs of
                    (Inl e, g3) \<Rightarrow> (Inl e, g3)
                  | (Inr kids, g3) \<Rightarrow>
                      (case make_nodes_st g3 kids (set_add seen node) of
                         (Inl e, g4) \<Rightarrow> (Inl e, g4)
                       | (Inr ts, g4) \<Rightarrow> (Inr (Tree label ts), g4)))))"
| "make_nodes_st g [] seen = (Inr [], g)"
| "make_nodes_st g (k # ks) seen =
     (case make_node_st g k seen of
        (Inl e, g1) \<Rightarrow> (Inl e, g1)
      | (Inr t, g1) \<Rightarrow>
          (case make_nodes_st g1 ks seen of
             (Inl e, g2) \<Rightarrow> (Inl e, g2)
           | (Inr ts, g2) \<Rightarrow> (Inr (t # ts), g2)))"
  by pat_completeness auto

lemma make_node_st_pure_dom:
  "make_node_st_make_nodes_st_dom (Inl (g, node, seen)) \<Longrightarrow>
     make_node_st g node seen = (make_node g node seen, g)"
  "make_node_st_make_nodes_st_dom (Inr (g, ks, seen)) \<Longrightarrow>
     make_nodes_st g ks seen = (make_nodes g ks seen, g)"
proof (induction rule: make_node_st_make_nodes_st.pinduct)
  case (1 g node seen)
  note psimp = make_node_st.psimps[OF "1.hyps"]
  show ?case
  proof (cases "key_in node seen")
    case True
    then show ?thesis
      by (simp add: psimp nodes_get_pure make_node.simps split: json.splits)
  next
    case False
    show ?thesis
    proof (cases "sorted_by_label g (children_of g node)")
      case (Inl e)
      then show ?thesis using False
        by (simp add: psimp nodes_get_pure edges_get_pure sorted_by_label_st_pure make_node.simps)
    next
      case kids: (Inr kids)
      have "make_nodes_st g kids (set_add seen node) = (make_nodes g kids (set_add seen node), g)"
        by (rule "1.IH"[of "label_of g node" g "children_of g node" g "Inr kids" g kids])
           (use False kids in \<open>simp_all add: nodes_get_pure edges_get_pure sorted_by_label_st_pure\<close>)
      then show ?thesis using False kids
        by (simp add: psimp nodes_get_pure edges_get_pure sorted_by_label_st_pure make_node.simps
            split: sum.splits)
    qed
  qed
next
  case (2 g seen)
  then show ?case by (simp add: make_nodes_st.psimps(1))
next
  case (3 g k ks seen)
  note psimp = make_nodes_st.psimps(2)[OF "3.hyps"]
  have r: "make_node_st g k seen = (make_node g k seen, g)"
    by (rule "3.IH"(1))
  show ?case
  proof (cases "make_node g k seen")
    case (Inl e)
    then show ?thesis by (simp add: psimp r)
  next
    case (Inr t)
    have "make_nodes_st g ks seen = (make_nodes g ks seen, g)"
      by (rule "3.IH"(2)[of "Inr t" g t]) (use r Inr in simp_all)
    then show ?thesis using Inr by (simp add: psimp r split: sum.splits)
  qed
qed

lemma make_node_st_dom_total: "All make_node_st_make_nodes_st_dom"
proof (relation "measures
    [\<lambda>x. case x of
            Inl (g, node, seen) \<Rightarrow> unseen g [node] seen
          | Inr (g, ks, seen) \<Rightarrow> unseen g ks seen,
     \<lambda>x. case x of
            Inl (g, node, seen) \<Rightarrow> 0
          | Inr (g, ks, seen) \<Rightarrow> Suc (length ks)]",
    goal_cases)
  case 1
  show ?case by simp
next
  case (2 g node seen x y xa ya xb yb b)
  from 2 have yb: "yb = g" "sorted_by_label g (children_of g node) = Inr b"
    by (simp_all add: nodes_get_pure edges_get_pure sorted_by_label_st_pure)
  have "hk ` set b \<subseteq> targets g"
    using set_sorted_by_label[OF yb(2)] children_of_targets[of g node] by simp
  from unseen_descend[OF _ this, of node seen] 2 show ?case by (simp add: yb(1))
next
  case (3 g k ks seen)
  have "unseen g [k] seen \<le> unseen g (k # ks) seen"
    by (rule unseen_mono) auto
  then show ?case by auto
next
  case (4 g k ks seen x y b)
  from 4 have y: "y = g" by (simp add: make_node_st_pure_dom(1))
  have "unseen g ks seen \<le> unseen g (k # ks) seen"
    by (rule unseen_mono) auto
  then show ?case by (auto simp: y)
qed

termination make_node_st
  by (rule make_node_st_dom_total)

declare make_node_st.simps [simp del]

definition to_d3_tree_st :: "sbom \<Rightarrow> key list \<Rightarrow> (error + tree) \<times> sbom" where
  "to_d3_tree_st g rs =
     (case rs of
        [r] \<Rightarrow> make_node_st g r []
      | _ \<Rightarrow> (case make_nodes_st g rs [] of
                (Inl e, g1) \<Rightarrow> (Inl e, g1)
              | (Inr ts, g1) \<Rightarrow> (Inr (Tree (JStr ''SBOM Roots'') ts), g1)))"

text \<open>The breadth-first search and the two loops of \<^verbatim>\<open>to_dot\<close>.\<close>

function bfs_st :: "sbom \<Rightarrow> key list \<Rightarrow> key list \<Rightarrow> key list \<times> sbom" where
  "bfs_st g [] reachable = (reachable, g)"
| "bfs_st g (n # dq) reachable =
     (if key_in n reachable then bfs_st g dq reachable
      else (case edges_get g n of
              (cs, g1) \<Rightarrow> bfs_st g1 (dq @ cs) (set_add reachable n)))"
  by pat_completeness auto

termination
proof (relation "measures [\<lambda>(g, dq, reachable). unseen g dq reachable, \<lambda>(g, dq, reachable). length dq]",
    goal_cases)
  case 1
  show ?case by simp
next
  case (2 g n dq reachable)
  have "unseen g dq reachable \<le> unseen g (n # dq) reachable"
    by (rule unseen_mono) auto
  then show ?case by auto
next
  case (3 g n dq reachable x y)
  from 3 have xy: "y = g" "x = children_of g n" by (simp_all add: edges_get_pure)
  have "unseen g (dq @ children_of g n) (set_add reachable n) < unseen g (n # dq) reachable"
    unfolding unseen_def
  proof (rule psubset_card_mono)
    show "finite ((targets g \<union> hk ` set (n # dq)) - hk ` set reachable)" by simp
    have "hk n \<notin> hk ` set reachable" using 3 by (simp add: key_in_def)
    then show "(targets g \<union> hk ` set (dq @ children_of g n)) - hk ` set (set_add reachable n)
                 \<subset> (targets g \<union> hk ` set (n # dq)) - hk ` set reachable"
      using children_of_targets[of g n] by (auto simp: set_set_add)
  qed
  then show ?case by (simp add: xy)
qed

fun reachable_from_st :: "sbom \<Rightarrow> key list \<Rightarrow> key list \<Rightarrow> key list \<times> sbom" where
  "reachable_from_st g [] reachable = (reachable, g)"
| "reachable_from_st g (root # rs) reachable =
     (case bfs_st g [root] reachable of
        (reachable', g1) \<Rightarrow> reachable_from_st g1 rs reachable')"

fun dot_nodes_st :: "(json \<Rightarrow> string) \<Rightarrow> sbom \<Rightarrow> key list \<Rightarrow> (error + string list) \<times> sbom" where
  "dot_nodes_st fmt g [] = (Inr [], g)"
| "dot_nodes_st fmt g (n # ns) =
     (case nodes_get g n of
        (JStr l, g1) \<Rightarrow>
          (case dot_nodes_st fmt g1 ns of
             (Inl e, g2) \<Rightarrow> (Inl e, g2)
           | (Inr ls, g2) \<Rightarrow>
               (Inr ((''  '' @ [CHR 0x22] @ py_str fmt (json_of_key n) @ [CHR 0x22] @ '' [label='' @ [CHR 0x22]
                      @ escape_quotes l @ [CHR 0x22] @ ''];'') # ls), g2))
      | (_, g1) \<Rightarrow> (Inl AttributeError, g1))"

fun dot_edges_st ::
    "(json \<Rightarrow> string) \<Rightarrow> sbom \<Rightarrow> key list \<Rightarrow> key list \<Rightarrow> (error + string list) \<times> sbom" where
  "dot_edges_st fmt g reachable [] = (Inr [], g)"
| "dot_edges_st fmt g reachable (src # srcs) =
     (case edges_get g src of
        (cs, g1) \<Rightarrow>
          (case py_sorted cs of
             Inl e \<Rightarrow> (Inl e, g1)
           | Inr dsts \<Rightarrow>
               (case dot_edges_st fmt g1 reachable srcs of
                  (Inl e, g2) \<Rightarrow> (Inl e, g2)
                | (Inr ls, g2) \<Rightarrow>
                    (Inr (map (dot_edge_line fmt src) (filter (\<lambda>dst. key_in dst reachable) dsts) @ ls),
                     g2))))"

definition to_dot_st :: "(json \<Rightarrow> string) \<Rightarrow> sbom \<Rightarrow> key list \<Rightarrow> (error + string) \<times> sbom" where
  "to_dot_st fmt g rs =
     (case reachable_from_st g rs [] of
        (reachable, g1) \<Rightarrow>
          (case py_sorted reachable of
             Inl e \<Rightarrow> (Inl e, g1)
           | Inr ns \<Rightarrow>
               (case dot_nodes_st fmt g1 ns of
                  (Inl e, g2) \<Rightarrow> (Inl e, g2)
                | (Inr node_lines, g2) \<Rightarrow>
                    (case py_sorted reachable of
                       Inl e \<Rightarrow> (Inl e, g2)
                     | Inr srcs \<Rightarrow>
                         (case dot_edges_st fmt g2 reachable srcs of
                            (Inl e, g3) \<Rightarrow> (Inl e, g3)
                          | (Inr edge_lines, g3) \<Rightarrow>
                              (Inr (join_lines ([''digraph SBOM {'', ''  rankdir=LR;'',
                                                 ''  node [shape=box, fontsize=10];'']
                                                @ node_lines @ edge_lines @ [''}''])), g3))))))"

section \<open>Invariants of the graph\<close>

text \<open>The ids that a pass over declared entries (components, packages) stores, given
  the function that reads an entry's id.\<close>

definition declared_ids :: "(json \<Rightarrow> error + json) \<Rightarrow> json list \<Rightarrow> key list" where
  "declared_ids idf cs =
     concat (map (\<lambda>c. case idf c of
                         Inr v \<Rightarrow> if truthy v then (case to_key v of Inr k \<Rightarrow> [k] | Inl e \<Rightarrow> []) else []
                       | Inl e \<Rightarrow> []) cs)"

text \<open>Every node is declared or is a placeholder whose label is its own id.\<close>

definition placeholder_labels :: "key list \<Rightarrow> sbom \<Rightarrow> bool" where
  "placeholder_labels declared g \<longleftrightarrow>
     (\<forall>kv \<in> set (nodes g). key_in (fst kv) declared \<or> snd kv = json_of_key (fst kv))"

text \<open>An edge map as the normalizers build it: no two items with equal keys, no empty
  child set, no child twice in a set.\<close>

definition edges_wf :: "(key \<times> key list) list \<Rightarrow> bool" where
  "edges_wf E \<longleftrightarrow>
     distinct (map (\<lambda>kv. hk (fst kv)) E) \<and>
     (\<forall>kv \<in> set E. snd kv \<noteq> [] \<and> distinct (map hk (snd kv)))"

text \<open>The invariants of the data model: every id that occurs in the edge map, as a
  source or as a target, is a key of the node map, and so is every candidate root.\<close>

definition closed_graph :: "sbom \<Rightarrow> bool" where
  "closed_graph g \<longleftrightarrow>
     (\<forall>kv \<in> set (edges g).
        key_in (fst kv) (map fst (nodes g)) \<and>
        (\<forall>c \<in> set (snd kv). key_in c (map fst (nodes g)))) \<and>
     (\<forall>r \<in> set (roots g). key_in r (map fst (nodes g)))"

text \<open>What every step of a normalizer guarantees from one graph to the next.\<close>

definition extends :: "sbom \<Rightarrow> sbom \<Rightarrow> bool" where
  "extends s s' \<longleftrightarrow>
     (\<forall>k. key_in k (map fst (nodes s)) \<longrightarrow> key_in k (map fst (nodes s'))) \<and>
     (\<forall>a b. has_edge s a b \<longrightarrow> has_edge s' a b) \<and>
     (edges_wf (edges s) \<longrightarrow> edges_wf (edges s')) \<and>
     (closed_graph s \<longrightarrow> closed_graph s')"

section \<open>What a CycloneDX document lists\<close>

text \<open>The number of edges of a graph: the sizes of the child sets, added up.\<close>

definition edge_count :: "sbom \<Rightarrow> nat" where
  "edge_count g = sum_list (map (\<lambda>kv. length (snd kv)) (edges g))"

text \<open>The edges that the top-level \<^verbatim>\<open>dependencies\<close> section lists, as the loop of
  lines 60 to 68 reads them: an entry needs a truthy \<^verbatim>\<open>ref\<close>, and a falsy child is dropped.\<close>

fun kept_children :: "json list \<Rightarrow> key list" where
  "kept_children [] = []"
| "kept_children (v # vs) =
     (if truthy v then (case to_key v of Inr k \<Rightarrow> k # kept_children vs | Inl e \<Rightarrow> kept_children vs)
      else kept_children vs)"

definition dependency_entry_edges :: "json \<Rightarrow> (key \<times> key) list" where
  "dependency_entry_edges dep =
     (case get dep ''ref'' of
        Inr ref \<Rightarrow>
          if truthy ref then
            (case to_key ref of
               Inr r \<Rightarrow>
                 (case get dep ''dependsOn'' of
                    Inr d \<Rightarrow>
                      (case py_iter (py_or d (JArr [])) of
                         Inr children \<Rightarrow> map (Pair r) (kept_children children)
                       | Inl e \<Rightarrow> [])
                  | Inl e \<Rightarrow> [])
             | Inl e \<Rightarrow> [])
          else []
      | Inl e \<Rightarrow> [])"

fun listed_edges :: "json list \<Rightarrow> (key \<times> key) list" where
  "listed_edges [] = []"
| "listed_edges (dep # deps) = dependency_entry_edges dep @ listed_edges deps"

text \<open>The edges that the components' own \<^verbatim>\<open>dependencies\<close> lists give, as the fallback of
  lines 71 to 78 reads them: nothing is dropped.\<close>

fun all_keys :: "json list \<Rightarrow> key list" where
  "all_keys [] = []"
| "all_keys (v # vs) = (case to_key v of Inr k \<Rightarrow> k # all_keys vs | Inl e \<Rightarrow> all_keys vs)"

definition inline_entry_edges :: "json \<Rightarrow> (key \<times> key) list" where
  "inline_entry_edges c =
     (case cx_id c of
        Inr src \<Rightarrow>
          (case get c ''dependencies'' of
             Inr d \<Rightarrow>
               (case py_or d (JArr []) of
                  JArr children \<Rightarrow>
                    (case to_key src of Inr a \<Rightarrow> map (Pair a) (all_keys children) | Inl e \<Rightarrow> [])
                | _ \<Rightarrow> [])
           | Inl e \<Rightarrow> [])
      | Inl e \<Rightarrow> [])"

fun inline_edges :: "json list \<Rightarrow> (key \<times> key) list" where
  "inline_edges [] = []"
| "inline_edges (c # cs) = inline_entry_edges c @ inline_edges cs"

text \<open>How many edges, and how many ids, a list holds when equal ones count once.\<close>

definition distinct_edges :: "(key \<times> key) list \<Rightarrow> nat" where
  "distinct_edges ps = length (remdups (map (\<lambda>p. (hk (fst p), hk (snd p))) ps))"

definition distinct_ids :: "key list \<Rightarrow> nat" where
  "distinct_ids ks = length (remdups (map hk ks))"

text \<open>\<^verbatim>\<open>s.edges[a].add(b)\<close> for a list of pairs in turn, and the pairs an edge map holds.\<close>

definition add_edges :: "(key \<times> key) list \<Rightarrow> (key \<times> key list) list \<Rightarrow> (key \<times> key list) list" where
  "add_edges ps E = fold (\<lambda>p E. edges_add E (fst p) (snd p)) ps E"

fun pairs_of :: "(key \<times> key list) list \<Rightarrow> (key \<times> key) list" where
  "pairs_of [] = []"
| "pairs_of ((a, cs) # E) = map (\<lambda>c. (hk a, hk c)) cs @ pairs_of E"

text \<open>\<^verbatim>\<open>obj.get("components", []) or []\<close> and \<^verbatim>\<open>obj.get("dependencies", []) or []\<close> as
  lists, and the edges that normalization reads from the document: those of the
  top-level section, or, when it has none and there are components, the inline ones.\<close>

definition component_entries :: "json \<Rightarrow> json list" where
  "component_entries obj =
     (case get_default obj ''components'' (JArr []) of
        Inr cv \<Rightarrow> (case py_iter (py_or cv (JArr [])) of Inr comps \<Rightarrow> comps | Inl e \<Rightarrow> [])
      | Inl e \<Rightarrow> [])"

definition dependency_entries :: "json \<Rightarrow> json list" where
  "dependency_entries obj =
     (case get_default obj ''dependencies'' (JArr []) of
        Inr dv \<Rightarrow> (case py_iter (py_or dv (JArr [])) of Inr deps \<Rightarrow> deps | Inl e \<Rightarrow> [])
      | Inl e \<Rightarrow> [])"

definition read_edges :: "json \<Rightarrow> (key \<times> key) list" where
  "read_edges obj =
     (if listed_edges (dependency_entries obj) = [] \<and> component_entries obj \<noteq> []
      then inline_edges (component_entries obj)
      else listed_edges (dependency_entries obj))"

section \<open>Example documents\<close>

text \<open>A CycloneDX document, an SPDX document and a JSON object of neither schema.\<close>

definition doc_cdx :: json where
  "doc_cdx =
     JObj [(''components'', JArr [JObj [(''bom-ref'', JStr ''a'')], JObj [(''bom-ref'', JStr ''b'')]]),
           (''dependencies'',
              JArr [JObj [(''ref'', JStr ''a''), (''dependsOn'', JArr [JStr ''b''])]])]"

definition doc_spdx :: json where
  "doc_spdx =
     JObj [(''packages'', JArr [JObj [(''SPDXID'', JStr ''P''), (''name'', JStr ''p'')]]),
           (''relationships'',
              JArr [JObj [(''relationshipType'', JStr ''DEPENDS_ON''),
                          (''spdxElementId'', JStr ''P''), (''relatedSpdxElement'', JStr ''Q'')]])]"

definition doc_other :: json where
  "doc_other = JObj [(''bomFormat'', JStr ''SWID''), (''name'', JStr ''x'')]"

text \<open>SPDX relationship entries: one whose source and target are the same id, and one
  of a reverse type between two ids.\<close>

definition rel_self :: json where
  "rel_self = JObj [(''relationshipType'', JStr ''BUILD_DEPENDENCY_OF''),
                    (''spdxElementId'', JStr ''A''), (''relatedSpdxElement'', JStr ''A'')]"

definition rel_ab :: json where
  "rel_ab = JObj [(''relationshipType'', JStr ''runtime-dependency-of''),
                  (''spdxElementId'', JStr ''X''), (''relatedSpdxElement'', JStr ''Y'')]"

text \<open>Scenario B of the specification: a declared root that is not wired into the
  dependency section, and the graph it yields.\<close>

definition doc_root :: json where
  "doc_root =
     JObj [(''components'', JArr [JObj [(''bom-ref'', JStr ''a'')], JObj [(''bom-ref'', JStr ''b'')]]),
           (''dependencies'',
              JArr [JObj [(''ref'', JStr ''a''), (''dependsOn'', JArr [JStr ''b''])]]),
           (''metadata'', JObj [(''component'', JObj [(''bom-ref'', JStr ''root'')])])]"

definition graph_root :: sbom where
  "graph_root =
     \<lparr>nodes = [(KStr ''a'', JStr ''component''), (KStr ''b'', JStr ''component''),
               (KStr ''root'', JStr ''component'')],
      edges = [(KStr ''a'', [KStr ''b'']), (KStr ''root'', [KStr ''a''])],
      roots = [KStr ''root'']\<rparr>"

definition graph_cdx :: sbom where
  "graph_cdx =
     \<lparr>nodes = [(KStr ''a'', JStr ''component''), (KStr ''b'', JStr ''component'')],
      edges = [(KStr ''a'', [KStr ''b''])], roots = [KStr ''a'']\<rparr>"

definition graph_spdx :: sbom where
  "graph_spdx =
     \<lparr>nodes = [(KStr ''P'', JStr ''p''), (KStr ''Q'', JStr ''Q'')],
      edges = [(KStr ''P'', [KStr ''Q''])], roots = [KStr ''P'']\<rparr>"

definition doc_inline :: json where
  "doc_inline = JObj [(''components'', JArr [JObj [(''dependencies'', JArr [JStr ''x''])]])]"

definition graph_inline :: sbom where
  "graph_inline =
     \<lparr>nodes = [(KNone, JNull), (KStr ''x'', JStr ''x'')],
      edges = [(KNone, [KStr ''x''])], roots = [KNone]\<rparr>"

text \<open>Two components with the same name and no \<^verbatim>\<open>bom-ref\<close>, and the graph they yield.\<close>

definition doc_same_name :: json where
  "doc_same_name =
     JObj [(''bomFormat'', JStr ''CycloneDX''),
           (''components'',
              JArr [JObj [(''type'', JStr ''library''), (''name'', JStr ''lib''), (''version'', JStr ''1'')],
                    JObj [(''type'', JStr ''library''), (''name'', JStr ''lib''), (''version'', JStr ''2'')]])]"

definition graph_same_name :: sbom where
  "graph_same_name = \<lparr>nodes = [(KStr ''lib'', JStr ''lib@2'')], edges = [], roots = [KStr ''lib'']\<rparr>"

definition graph_cycle :: sbom where
  "graph_cycle =
     \<lparr>nodes = [(KStr ''a'', JStr ''a''), (KStr ''b'', JStr ''b'')],
      edges = [(KStr ''a'', [KStr ''b'']), (KStr ''b'', [KStr ''a''])], roots = [KStr ''a'']\<rparr>"

definition graph_self_loop :: sbom where
  "graph_self_loop =
     \<lparr>nodes = [(KStr ''a'', JStr ''a'')], edges = [(KStr ''a'', [KStr ''a''])], roots = []\<rparr>"

definition graph_inner_cycle :: sbom where
  "graph_inner_cycle =
     \<lparr>nodes = [(KStr ''a'', JStr ''a''), (KStr ''b'', JStr ''b''), (KStr ''c'', JStr ''c'')],
      edges = [(KStr ''a'', [KStr ''b'']), (KStr ''b'', [KStr ''c'']), (KStr ''c'', [KStr ''b''])],
      roots = [KStr ''a'']\<rparr>"

definition plain :: ascii_options where
  "plain = \<lparr>show_ids = False, max_depth = None, include_dupes = False\<rparr>"




definition graph_diamond :: sbom where
  "graph_diamond =
     \<lparr>nodes = [(KStr ''a'', JStr ''a''), (KStr ''b'', JStr ''b''), (KStr ''c'', JStr ''c''),
               (KStr ''d'', JStr ''d'')],
      edges = [(KStr ''a'', [KStr ''b'', KStr ''c'']), (KStr ''b'', [KStr ''d'']),
               (KStr ''c'', [KStr ''d''])],
      roots = [KStr ''a'']\<rparr>"

definition graph_depth :: sbom where
  "graph_depth =
     \<lparr>nodes = [(KStr ''a'', JStr ''a''), (KStr ''b'', JStr ''b''), (KStr ''x'', JStr ''x''),
               (KStr ''y'', JStr ''y'')],
      edges = [(KStr ''a'', [KStr ''b'', KStr ''x'']), (KStr ''b'', [KStr ''x'']),
               (KStr ''x'', [KStr ''y''])],
      roots = [KStr ''a'']\<rparr>"

definition graph_two_roots :: sbom where
  "graph_two_roots =
     \<lparr>nodes = [(KStr ''a'', JStr ''a''), (KStr ''b'', JStr ''b''), (KStr ''c'', JStr ''c'')],
      edges = [(KStr ''a'', [KStr ''c'']), (KStr ''b'', [KStr ''a''])],
      roots = [KStr ''a'', KStr ''b'']\<rparr>"

text \<open>An SPDX document with a relationship of a reverse type, written in lower case
  with hyphens, and one of a type that is in neither set; the graph it yields; and a
  document whose only relationship is of an id to itself.\<close>

definition doc_reverse :: json where
  "doc_reverse =
     JObj [(''packages'', JArr [JObj [(''SPDXID'', JStr ''X''), (''name'', JStr ''x'')],
                                JObj [(''SPDXID'', JStr ''Y''), (''name'', JStr ''y'')]]),
           (''relationships'',
              JArr [rel_ab,
                    JObj [(''relationshipType'', JStr ''CONTAINS''),
                          (''spdxElementId'', JStr ''X''), (''relatedSpdxElement'', JStr ''Z'')]])]"

definition graph_reverse :: sbom where
  "graph_reverse =
     \<lparr>nodes = [(KStr ''X'', JStr ''x''), (KStr ''Y'', JStr ''y''), (KStr ''Z'', JStr ''Z'')],
      edges = [(KStr ''Y'', [KStr ''X''])], roots = [KStr ''Y'', KStr ''Z'']\<rparr>"

definition doc_self :: json where
  "doc_self = JObj [(''relationships'', JArr [rel_self])]"

text \<open>The edge that a relationship entry states: source \<open>\<rightarrow>\<close> target for a type of the
  forward set, target \<open>\<rightarrow>\<close> source for a type of the reverse set, for an entry that has
  both ids.\<close>

abbreviation states_edge :: "json \<Rightarrow> key \<Rightarrow> key \<Rightarrow> bool" where
  "states_edge rel a b \<equiv>
     (\<exists>rt src dst x y.
        rel_type rel = Inr rt \<and>
        get_or rel [''spdxElementId'', ''sourceElement''] = Inr src \<and>
        get_or rel [''relatedSpdxElement'', ''targetElement''] = Inr dst \<and>
        truthy src \<and> truthy dst \<and> to_key src = Inr x \<and> to_key dst = Inr y \<and>
        ((rt \<in> set forward_types \<and> hk a = hk x \<and> hk b = hk y) \<or>
         (rt \<in> set reverse_types \<and> hk a = hk y \<and> hk b = hk x)))"

section \<open>Properties\<close>

lemma ebind_Inl [simp]: "ebind (Inl e) f = Inl e"
  by (simp add: ebind_def)

lemma ebind_Inr [simp]: "ebind (Inr x) f = f x"
  by (simp add: ebind_def)

lemma ebind_eq_Inr: "ebind m f = Inr y \<longleftrightarrow> (\<exists>x. m = Inr x \<and> f x = Inr y)"
  by (cases m) simp_all

lemma ebind_eq_Inl: "ebind m f = Inl e \<longleftrightarrow> m = Inl e \<or> (\<exists>x. m = Inr x \<and> f x = Inl e)"
  by (cases m) simp_all

subsection \<open>No normalizer raises ValueError\<close>

definition no_value_error :: "error + 'a \<Rightarrow> bool" where
  "no_value_error m \<longleftrightarrow> m \<noteq> Inl ValueError"

lemma nve_Inr [simp]: "no_value_error (Inr x)"
  by (simp add: no_value_error_def)

lemma nve_ebind: "no_value_error m \<Longrightarrow> (\<And>x. no_value_error (f x)) \<Longrightarrow> no_value_error (ebind m f)"
  by (cases m) (simp_all add: no_value_error_def)

lemma nve_get_default [simp]: "no_value_error (get_default d k v)"
  by (simp add: no_value_error_def get_default_def split: json.splits)

lemma nve_get [simp]: "no_value_error (get d k)"
  by (simp add: get_def)

lemma nve_get_or [simp]: "no_value_error (get_or d ks)"
  by (induction d ks rule: get_or.induct) (auto intro!: nve_ebind)

lemma nve_py_iter [simp]: "no_value_error (py_iter v)"
  by (simp add: no_value_error_def py_iter_def split: json.splits)

lemma nve_to_key [simp]: "no_value_error (to_key v)"
  by (simp add: no_value_error_def to_key_def split: json.splits)

lemma nve_py_sorted [simp]: "no_value_error (py_sorted ks)"
  by (simp add: no_value_error_def py_sorted_def)

lemma nve_cx_id [simp]: "no_value_error (cx_id c)"
  unfolding cx_id_def by (rule nve_get_or)

lemma nve_cx_label [simp]: "no_value_error (cx_label fmt c)"
  by (auto simp: cx_label_def Let_def intro!: nve_ebind)

lemma nve_cdx_components [simp]: "no_value_error (cdx_components fmt cs s)"
  by (induction cs arbitrary: s) (auto intro!: nve_ebind)

lemma nve_meta_component [simp]: "no_value_error (meta_component obj)"
  by (auto simp: meta_component_def intro!: nve_ebind)

lemma nve_cdx_metadata [simp]: "no_value_error (cdx_metadata fmt obj s)"
  by (auto simp: cdx_metadata_def intro!: nve_ebind)

lemma nve_cdx_depends_on [simp]: "no_value_error (cdx_depends_on r cs s)"
  by (induction cs arbitrary: s) (auto intro!: nve_ebind)

lemma nve_cdx_dependencies [simp]: "no_value_error (cdx_dependencies ds s)"
  by (induction ds arbitrary: s) (auto intro!: nve_ebind)

lemma nve_cdx_inline_children [simp]: "no_value_error (cdx_inline_children src cs s)"
  by (induction cs arbitrary: s) (auto intro!: nve_ebind)

lemma nve_cdx_inline [simp]: "no_value_error (cdx_inline cs s)"
  by (induction cs arbitrary: s) (auto intro!: nve_ebind split: json.splits)

lemma nve_cdx_collect [simp]: "no_value_error (cdx_collect fmt obj)"
  by (auto simp: cdx_collect_def intro!: nve_ebind)

lemma nve_cdx_build [simp]: "no_value_error (cdx_build fmt obj)"
  by (auto simp: cdx_build_def intro!: nve_ebind)

lemma nve_cdx_roots [simp]: "no_value_error (cdx_roots s r)"
  by (auto simp: cdx_roots_def Let_def intro!: nve_ebind split: option.splits)

lemma nve_from_cyclonedx [simp]: "no_value_error (from_cyclonedx fmt obj)"
  by (auto simp: from_cyclonedx_def intro!: nve_ebind)

lemma nve_spdx_pkg_label [simp]: "no_value_error (spdx_pkg_label fmt c)"
  by (auto simp: spdx_pkg_label_def Let_def intro!: nve_ebind)

lemma nve_spdx_id [simp]: "no_value_error (spdx_id c)"
  unfolding spdx_id_def by (rule nve_get_or)

lemma nve_spdx_packages [simp]: "no_value_error (spdx_packages fmt cs s)"
  by (induction cs arbitrary: s) (auto intro!: nve_ebind)

lemma nve_rel_type [simp]: "no_value_error (rel_type rel)"
  by (auto simp: rel_type_def intro!: nve_ebind split: json.splits) (simp add: no_value_error_def)+

lemma nve_spdx_relationship [simp]: "no_value_error (spdx_relationship rel s)"
  by (auto simp: spdx_relationship_def Let_def intro!: nve_ebind)

lemma nve_spdx_relationships [simp]: "no_value_error (spdx_relationships rels s)"
  by (induction rels arbitrary: s) (auto intro!: nve_ebind)

lemma nve_spdx_describes [simp]: "no_value_error (spdx_describes rs s)"
  by (induction rs arbitrary: s) (auto intro!: nve_ebind)

lemma nve_from_spdx [simp]: "no_value_error (from_spdx fmt obj)"
  by (auto simp: from_spdx_def intro!: nve_ebind)

subsection \<open>C7: format detection\<close>

text \<open>
  C7. \<^verbatim>\<open>SBOM.from_json\<close> applies the detection rule in order: a mapping whose
  \<^verbatim>\<open>bomFormat\<close> equals "CycloneDX", or that has a \<^verbatim>\<open>components\<close> or a \<^verbatim>\<open>dependencies\<close> key,
  goes to the CycloneDX normalizer; otherwise a mapping with a \<^verbatim>\<open>packages\<close> or a
  \<^verbatim>\<open>relationships\<close> key goes to the SPDX normalizer. It raises the format error (the
  \<^verbatim>\<open>ValueError\<close> of the source) if and only if neither rule matches, and then there is no
  graph. That the normalizers never raise \<^verbatim>\<open>ValueError\<close> themselves is lemmas
  \<open>nve_from_cyclonedx\<close> and \<open>nve_from_spdx\<close>.
\<close>

theorem from_json_dispatch:
  "(is_cyclonedx obj \<longrightarrow> from_json fmt obj = from_cyclonedx fmt obj) \<and>
   (\<not> is_cyclonedx obj \<and> is_spdx obj \<longrightarrow> from_json fmt obj = from_spdx fmt obj) \<and>
   (from_json fmt obj = Inl ValueError \<longleftrightarrow> \<not> is_cyclonedx obj \<and> \<not> is_spdx obj) \<and>
   (\<not> is_cyclonedx obj \<and> \<not> is_spdx obj \<longrightarrow> (\<forall>g. from_json fmt obj \<noteq> Inr g))"
  using nve_from_cyclonedx[of fmt obj] nve_from_spdx[of fmt obj]
  by (auto simp: from_json_def no_value_error_def)

theorem from_json_dispatch_witness:
  "is_cyclonedx doc_cdx \<and>
   from_json (\<lambda>v. []) doc_cdx = from_cyclonedx (\<lambda>v. []) doc_cdx \<and>
   \<not> is_cyclonedx doc_spdx \<and> is_spdx doc_spdx \<and>
   from_json (\<lambda>v. []) doc_spdx = from_spdx (\<lambda>v. []) doc_spdx \<and>
   \<not> is_cyclonedx doc_other \<and> \<not> is_spdx doc_other \<and>
   from_json (\<lambda>v. []) doc_other = Inl ValueError \<and>
   (\<forall>g. from_json (\<lambda>v. []) doc_other \<noteq> Inr g)"
proof -
  have c: "is_cyclonedx doc_cdx"
    by (simp add: is_cyclonedx_def doc_cdx_def)
  have s: "\<not> is_cyclonedx doc_spdx \<and> is_spdx doc_spdx"
    by (simp add: is_cyclonedx_def is_spdx_def doc_spdx_def py_eq_def)
  have n: "\<not> is_cyclonedx doc_other \<and> \<not> is_spdx doc_other"
    by (simp add: is_cyclonedx_def is_spdx_def doc_other_def py_eq_def)
  show ?thesis
    using c s n
      from_json_dispatch [of doc_cdx "\<lambda>v. []"]
      from_json_dispatch [of doc_spdx "\<lambda>v. []"]
      from_json_dispatch [of doc_other "\<lambda>v. []"]
    by blast
qed

subsection \<open>Dictionaries and sets\<close>

lemma key_in_Nil [simp]: "\<not> key_in k []"
  by (simp add: key_in_def)

lemma key_in_Cons [simp]: "key_in k (x # xs) \<longleftrightarrow> hk k = hk x \<or> key_in k xs"
  by (auto simp: key_in_def)

lemma key_in_append [simp]: "key_in k (xs @ ys) \<longleftrightarrow> key_in k xs \<or> key_in k ys"
  by (auto simp: key_in_def)

lemma key_in_hk: "hk a = hk b \<Longrightarrow> key_in a ks = key_in b ks"
  by (simp add: key_in_def)

lemma key_in_mem: "k \<in> set ks \<Longrightarrow> key_in k ks"
  by (auto simp: key_in_def)

lemma key_in_set_add [simp]: "key_in x (set_add ks k) \<longleftrightarrow> hk x = hk k \<or> key_in x ks"
  by (auto simp: set_add_def dest: key_in_hk)

lemma dict_get_Nil [simp]: "dict_get [] k = None"
  by (simp add: dict_get_def)

lemma dict_get_Cons [simp]:
  "dict_get ((a, v) # d) k = (if hk a = hk k then Some v else dict_get d k)"
  by (auto simp: dict_get_def)

lemma dict_get_append:
  "dict_get (d @ e) k = (case dict_get d k of None \<Rightarrow> dict_get e k | Some v \<Rightarrow> Some v)"
  by (induction d) auto

lemma dict_get_None_iff: "dict_get d k = None \<longleftrightarrow> \<not> key_in k (map fst d)"
  by (induction d) (auto split: if_splits)

lemma dict_get_dict_set [simp]:
  "dict_get (dict_set d k v) x = (if hk k = hk x then Some v else dict_get d x)"
  by (induction d k v rule: dict_set.induct) auto

lemma keys_dict_set [simp]:
  "key_in x (map fst (dict_set d k v)) \<longleftrightarrow> hk x = hk k \<or> key_in x (map fst d)"
  by (induction d k v rule: dict_set.induct) auto

lemma keys_setdefault [simp]:
  "key_in x (map fst (setdefault d k v)) \<longleftrightarrow> hk x = hk k \<or> key_in x (map fst d)"
  by (auto simp: setdefault_def dest: key_in_hk)

lemma dict_get_edges_add:
  "dict_get (edges_add E a b) x =
     (if hk a = hk x then Some (set_add (case dict_get E a of None \<Rightarrow> [] | Some cs \<Rightarrow> cs) b)
      else dict_get E x)"
  by (auto simp: edges_add_def edges_index_def dict_get_append set_add_def split: option.splits)

lemma has_edge_edges_add:
  "has_edge (s\<lparr>edges := edges_add (edges s) a b\<rparr>) x y \<longleftrightarrow>
     has_edge s x y \<or> (hk x = hk a \<and> hk y = hk b)"
  by (auto simp: has_edge_def dict_get_edges_add dict_get_def[of "edges s"] split: option.splits)

lemma has_edge_nodes_update [simp]: "has_edge (s\<lparr>nodes := N\<rparr>) = has_edge s"
  by (simp add: has_edge_def fun_eq_iff)

lemma forward_not_reverse: "rt \<in> set forward_types \<Longrightarrow> rt \<notin> set reverse_types"
  by (auto simp: forward_types_def reverse_types_def)

subsection \<open>One SPDX relationship entry\<close>

text \<open>One turn of the relationship loop, for an entry that has both a source id and a
  target id: a type of the reverse set adds exactly the edge target \<open>\<rightarrow>\<close> source, a type
  of the forward set adds exactly the edge source \<open>\<rightarrow>\<close> target, and any other type leaves
  the edge map as it is.\<close>

lemma spdx_relationship_step:
  assumes "spdx_relationship rel s = Inr s'"
    and "get_or rel [''spdxElementId'', ''sourceElement''] = Inr src"
    and "get_or rel [''relatedSpdxElement'', ''targetElement''] = Inr dst"
    and "truthy src" and "truthy dst"
    and "rel_type rel = Inr rt"
  shows "\<exists>a b. to_key src = Inr a \<and> to_key dst = Inr b \<and>
           (rt \<in> set reverse_types \<longrightarrow>
              (\<forall>x y. has_edge s' x y \<longleftrightarrow> has_edge s x y \<or> (hk x = hk b \<and> hk y = hk a))) \<and>
           (rt \<in> set forward_types \<longrightarrow>
              (\<forall>x y. has_edge s' x y \<longleftrightarrow> has_edge s x y \<or> (hk x = hk a \<and> hk y = hk b))) \<and>
           (rt \<notin> set reverse_types \<and> rt \<notin> set forward_types \<longrightarrow> edges s' = edges s)"
proof -
  from assms obtain a b where a: "to_key src = Inr a" and b: "to_key dst = Inr b"
    and s': "s' = s\<lparr>nodes := setdefault (setdefault (nodes s) a (json_of_key a)) b (json_of_key b),
                     edges := (if rt \<in> set forward_types then edges_add (edges s) a b
                               else if rt \<in> set reverse_types then edges_add (edges s) b a
                               else edges s)\<rparr>"
    by (auto simp: spdx_relationship_def ebind_eq_Inr Let_def)
  have rev: "rt \<in> set reverse_types \<Longrightarrow> has_edge s' x y \<longleftrightarrow> has_edge s x y \<or> (hk x = hk b \<and> hk y = hk a)" for x y
    using has_edge_edges_add[of s b a x y] forward_not_reverse[of rt]
    by (auto simp: s' has_edge_def)
  have fwd: "rt \<in> set forward_types \<Longrightarrow> has_edge s' x y \<longleftrightarrow> has_edge s x y \<or> (hk x = hk a \<and> hk y = hk b)" for x y
    using has_edge_edges_add[of s a b x y]
    by (auto simp: s' has_edge_def)
  have other: "rt \<notin> set reverse_types \<and> rt \<notin> set forward_types \<longrightarrow> edges s' = edges s"
    by (simp add: s')
  from a b rev fwd other show ?thesis by blast
qed

lemma key_in_filter:
  assumes "\<And>x y. hk x = hk y \<Longrightarrow> P x = P y"
  shows "key_in b (filter P xs) \<longleftrightarrow> key_in b xs \<and> P b"
proof (induction xs)
  case Nil
  show ?case by simp
next
  case (Cons x xs)
  have "hk b = hk x \<Longrightarrow> P b = P x" by (rule assms)
  with Cons show ?case by auto
qed

lemma key_in_set_update [simp]: "key_in x (set_update ks xs) \<longleftrightarrow> key_in x ks \<or> key_in x xs"
  unfolding set_update_def by (induction xs arbitrary: ks) auto

lemma key_in_py_set [simp]: "key_in x (py_set xs) \<longleftrightarrow> key_in x xs"
  by (simp add: py_set_def)

lemma set_py_sorted: "py_sorted ks = Inr ys \<Longrightarrow> set ys = set ks"
  by (auto simp: py_sorted_def split: if_splits)

lemma key_in_py_sorted: "py_sorted ks = Inr ys \<Longrightarrow> key_in x ys = key_in x ks"
  using set_py_sorted[of ks ys] by (simp add: key_in_def)

lemma key_in_concat: "key_in b (concat xss) \<longleftrightarrow> (\<exists>xs \<in> set xss. key_in b xs)"
  by (induction xss) auto

lemma key_in_all_children:
  "key_in b (all_children E) \<longleftrightarrow> (\<exists>kv \<in> set E. key_in b (snd kv))"
  by (auto simp: all_children_def key_in_concat)

subsection \<open>Well-formed edge maps\<close>

lemma edges_wf_Nil [simp]: "edges_wf []"
  by (simp add: edges_wf_def)

lemma keys_dict_set_list:
  "map (\<lambda>kv. hk (fst kv)) (dict_set d k v) =
     (if key_in k (map fst d) then map (\<lambda>kv. hk (fst kv)) d else map (\<lambda>kv. hk (fst kv)) d @ [hk k])"
  by (induction d k v rule: dict_set.induct) auto

lemma set_dict_set:
  "kv \<in> set (dict_set d k v) \<Longrightarrow> kv \<in> set d \<or> (hk (fst kv) = hk k \<and> snd kv = v)"
  by (induction d k v rule: dict_set.induct) (auto split: if_splits)

lemma dict_get_SomeD: "dict_get d k = Some v \<Longrightarrow> \<exists>a. (a, v) \<in> set d \<and> hk a = hk k"
  unfolding dict_get_def by (drule map_of_SomeD) auto

lemma dict_get_SomeI:
  assumes "distinct (map (\<lambda>kv. hk (fst kv)) d)" and "(a, v) \<in> set d" and "hk a = hk k"
  shows "dict_get d k = Some v"
proof -
  have "map fst (map (\<lambda>kv. (hk (fst kv), snd kv)) d) = map (\<lambda>kv. hk (fst kv)) d"
    by (simp add: comp_def)
  with assms(1) have "distinct (map fst (map (\<lambda>kv. (hk (fst kv), snd kv)) d))"
    by (simp only:)
  moreover have "(hk k, v) \<in> set (map (\<lambda>kv. (hk (fst kv), snd kv)) d)"
    using assms(2,3) by force
  ultimately show ?thesis
    unfolding dict_get_def by (rule map_of_is_SomeI)
qed

lemma edges_add_eq:
  "edges_add E a b =
     (case dict_get E a of
        None \<Rightarrow> E @ [(a, [b])]
      | Some cs \<Rightarrow> dict_set E a (set_add cs b))"
proof (cases "dict_get E a")
  case None
  then have "\<not> key_in a (map fst E)" by (simp add: dict_get_None_iff)
  then have "dict_set (E @ [(a, [])]) a [b] = E @ [(a, [b])]"
    by (induction E) auto
  with None show ?thesis by (simp add: edges_add_def edges_index_def set_add_def)
next
  case (Some cs)
  then show ?thesis by (simp add: edges_add_def edges_index_def)
qed

lemma distinct_set_add: "distinct (map hk cs) \<Longrightarrow> distinct (map hk (set_add cs b))"
  by (auto simp: set_add_def key_in_def)

lemma set_add_not_Nil [simp]: "set_add cs b \<noteq> []"
  by (auto simp: set_add_def)

lemma edges_wf_edges_add: "edges_wf E \<Longrightarrow> edges_wf (edges_add E a b)"
proof (cases "dict_get E a")
  case None
  assume "edges_wf E"
  moreover from None have "\<not> key_in a (map fst E)" by (simp add: dict_get_None_iff)
  ultimately show ?thesis using None
    by (auto simp: edges_add_eq edges_wf_def key_in_def)
next
  case (Some cs)
  assume wf: "edges_wf E"
  from Some obtain a' where a': "(a', cs) \<in> set E" "hk a' = hk a"
    by (auto dest: dict_get_SomeD)
  with wf have cs: "distinct (map hk cs)" by (auto simp: edges_wf_def)
  from Some have k: "key_in a (map fst E)"
    using dict_get_None_iff[of E a] by simp
  have "distinct (map (\<lambda>kv. hk (fst kv)) (dict_set E a (set_add cs b)))"
    using wf k by (simp add: keys_dict_set_list edges_wf_def)
  moreover have "snd kv \<noteq> [] \<and> distinct (map hk (snd kv))"
    if "kv \<in> set (dict_set E a (set_add cs b))" for kv
  proof -
    from set_dict_set[OF that] show ?thesis
    proof
      assume "kv \<in> set E"
      with wf show ?thesis by (simp add: edges_wf_def)
    next
      assume "hk (fst kv) = hk a \<and> snd kv = set_add cs b"
      with cs show ?thesis by (simp add: distinct_set_add)
    qed
  qed
  ultimately show ?thesis using Some by (simp add: edges_add_eq edges_wf_def)
qed

lemma has_edge_iff:
  assumes "edges_wf (edges s)"
  shows "has_edge s a b \<longleftrightarrow> (\<exists>kv \<in> set (edges s). hk (fst kv) = hk a \<and> key_in b (snd kv))"
proof
  assume "has_edge s a b"
  then obtain cs where "dict_get (edges s) a = Some cs" "key_in b cs"
    by (auto simp: has_edge_def split: option.splits)
  then show "\<exists>kv \<in> set (edges s). hk (fst kv) = hk a \<and> key_in b (snd kv)"
    by (force dest: dict_get_SomeD)
next
  assume "\<exists>kv \<in> set (edges s). hk (fst kv) = hk a \<and> key_in b (snd kv)"
  then obtain k cs where kv: "(k, cs) \<in> set (edges s)" "hk k = hk a" "key_in b cs"
    by auto
  from assms have "distinct (map (\<lambda>kv. hk (fst kv)) (edges s))" by (simp add: edges_wf_def)
  from dict_get_SomeI[OF this kv(1,2)] kv(3) show "has_edge s a b"
    by (simp add: has_edge_def)
qed

lemma is_target_iff:
  assumes "edges_wf (edges s)"
  shows "key_in b (all_children (edges s)) \<longleftrightarrow> (\<exists>a. has_edge s a b)"
  unfolding key_in_all_children has_edge_iff[OF assms] by blast

lemma is_source_iff:
  assumes "edges_wf (edges s)"
  shows "key_in a (map fst (edges s)) \<longleftrightarrow> (\<exists>b. has_edge s a b)"
proof
  assume "key_in a (map fst (edges s))"
  then obtain k cs where kv: "(k, cs) \<in> set (edges s)" "hk k = hk a"
    by (force simp: key_in_def)
  with assms have "cs \<noteq> []" by (auto simp: edges_wf_def)
  then obtain c where "c \<in> set cs" by (cases cs) auto
  then have "key_in c cs" by (rule key_in_mem)
  with kv show "\<exists>b. has_edge s a b"
    unfolding has_edge_iff[OF assms] by force
next
  assume "\<exists>b. has_edge s a b"
  then show "key_in a (map fst (edges s))"
    unfolding has_edge_iff[OF assms] by (force simp: key_in_def)
qed

subsection \<open>What the loops of the CycloneDX normalizer preserve\<close>

lemma extends_refl [simp]: "extends s s"
  by (simp add: extends_def)

lemma extends_trans: "extends s s' \<Longrightarrow> extends s' s'' \<Longrightarrow> extends s s''"
  by (simp add: extends_def)

lemma set_edges_add:
  assumes "kv \<in> set (edges_add E a b)"
  shows "kv \<in> set E \<or>
         (hk (fst kv) = hk a \<and> (\<forall>c \<in> set (snd kv). c = b \<or> (\<exists>kv' \<in> set E. c \<in> set (snd kv'))))"
proof (cases "dict_get E a")
  case None
  with assms show ?thesis by (auto simp: edges_add_eq)
next
  case (Some cs)
  then obtain a' where a': "(a', cs) \<in> set E" by (auto dest: dict_get_SomeD)
  from assms Some have "kv \<in> set (dict_set E a (set_add cs b))"
    by (simp add: edges_add_eq)
  from set_dict_set[OF this] show ?thesis
  proof
    assume "kv \<in> set E"
    then show ?thesis by simp
  next
    assume kv: "hk (fst kv) = hk a \<and> snd kv = set_add cs b"
    have "c = b \<or> (\<exists>kv' \<in> set E. c \<in> set (snd kv'))" if "c \<in> set (set_add cs b)" for c
      using that a' by (force simp: set_add_def split: if_splits)
    with kv show ?thesis by simp
  qed
qed

lemma closed_graph_step:
  assumes c: "closed_graph s"
    and mono: "\<And>k. key_in k (map fst (nodes s)) \<Longrightarrow> key_in k (map fst N)"
    and a: "key_in a (map fst N)" and b: "key_in b (map fst N)"
  shows "closed_graph (s\<lparr>nodes := N, edges := edges_add (edges s) a b\<rparr>)"
proof -
  have "key_in (fst kv) (map fst N) \<and> (\<forall>c \<in> set (snd kv). key_in c (map fst N))"
    if "kv \<in> set (edges_add (edges s) a b)" for kv
    using set_edges_add[OF that]
  proof
    assume "kv \<in> set (edges s)"
    with c mono show ?thesis by (simp add: closed_graph_def)
  next
    assume h: "hk (fst kv) = hk a \<and>
               (\<forall>c \<in> set (snd kv). c = b \<or> (\<exists>kv' \<in> set (edges s). c \<in> set (snd kv')))"
    then have "key_in (fst kv) (map fst N)" using a key_in_hk[of "fst kv" a] by simp
    moreover have "key_in x (map fst N)" if "x \<in> set (snd kv)" for x
    proof -
      from h that have "x = b \<or> (\<exists>kv' \<in> set (edges s). x \<in> set (snd kv'))" by blast
      then show ?thesis
      proof
        assume "x = b"
        with b show ?thesis by simp
      next
        assume "\<exists>kv' \<in> set (edges s). x \<in> set (snd kv')"
        with c have "key_in x (map fst (nodes s))" by (auto simp: closed_graph_def)
        then show ?thesis by (rule mono)
      qed
    qed
    ultimately show ?thesis by blast
  qed
  moreover have "key_in r (map fst N)" if "r \<in> set (roots s)" for r
    using that c mono by (simp add: closed_graph_def)
  ultimately show ?thesis by (simp add: closed_graph_def)
qed

lemma closed_graph_nodes:
  assumes "closed_graph s"
    and "\<And>k. key_in k (map fst (nodes s)) \<Longrightarrow> key_in k (map fst N)"
  shows "closed_graph (s\<lparr>nodes := N\<rparr>)"
  using assms by (simp add: closed_graph_def)

lemma extends_nodes:
  assumes "\<And>k. key_in k (map fst (nodes s)) \<Longrightarrow> key_in k (map fst N)"
  shows "extends s (s\<lparr>nodes := N\<rparr>)"
  using assms closed_graph_nodes[of s N] by (simp add: extends_def)

lemma extends_step:
  assumes mono: "\<And>k. key_in k (map fst (nodes s)) \<Longrightarrow> key_in k (map fst N)"
    and a: "key_in a (map fst N)" and b: "key_in b (map fst N)"
  shows "extends s (s\<lparr>nodes := N, edges := edges_add (edges s) a b\<rparr>)"
proof -
  have "has_edge (s\<lparr>nodes := N, edges := edges_add (edges s) a b\<rparr>) x y" if "has_edge s x y" for x y
  proof -
    have "has_edge (s\<lparr>edges := edges_add (edges s) a b\<rparr>) x y"
      using that by (simp add: has_edge_edges_add)
    then show ?thesis by (simp add: has_edge_def)
  qed
  then show ?thesis
    using mono closed_graph_step[OF _ mono a b] edges_wf_edges_add[of "edges s" a b]
    by (simp add: extends_def)
qed

lemma cdx_components_extends:
  "cdx_components fmt cs s = Inr s' \<Longrightarrow> extends s s' \<and> edges s' = edges s \<and> roots s' = roots s"
proof (induction cs arbitrary: s)
  case Nil
  then show ?case by simp
next
  case (Cons c cs)
  from Cons.prems obtain cid where cid: "cx_id c = Inr cid" and
    rest: "(if truthy cid then
             ebind (cx_label fmt c) (\<lambda>l. ebind (to_key cid) (\<lambda>k.
               cdx_components fmt cs (s\<lparr>nodes := dict_set (nodes s) k l\<rparr>)))
           else cdx_components fmt cs s) = Inr s'"
    by (auto simp: ebind_eq_Inr)
  show ?case
  proof (cases "truthy cid")
    case False
    with rest Cons.IH show ?thesis by simp
  next
    case True
    with rest obtain l k where
      r: "cdx_components fmt cs (s\<lparr>nodes := dict_set (nodes s) k l\<rparr>) = Inr s'"
      by (auto simp: ebind_eq_Inr)
    have "extends s (s\<lparr>nodes := dict_set (nodes s) k l\<rparr>)"
      by (rule extends_nodes) simp
    with Cons.IH[OF r] show ?thesis by (auto intro: extends_trans)
  qed
qed

lemma cdx_metadata_extends:
  assumes "cdx_metadata fmt obj s = Inr (s', ro)"
  shows "extends s s' \<and> edges s' = edges s \<and>
         (\<forall>r. ro = Some r \<longrightarrow> key_in r (map fst (nodes s')))"
proof -
  from assms obtain mc where mc: "meta_component obj = Inr mc"
    and rest: "(if truthy mc then
             ebind (cx_id mc) (\<lambda>root_id.
               if truthy root_id then
                 ebind (cx_label fmt mc) (\<lambda>l. ebind (to_key root_id) (\<lambda>r.
                   Inr (s\<lparr>nodes := setdefault (nodes s) r l, roots := set_add (roots s) r\<rparr>, Some r)))
               else Inr (s, None))
           else Inr (s, None)) = Inr (s', ro)"
    by (auto simp: cdx_metadata_def ebind_eq_Inr)
  show ?thesis
  proof (cases "ro")
    case None
    with rest have "s' = s" by (auto simp: ebind_eq_Inr split: if_splits)
    with None show ?thesis by simp
  next
    case (Some r)
    with rest obtain l where s': "s' = s\<lparr>nodes := setdefault (nodes s) r l, roots := set_add (roots s) r\<rparr>"
      by (auto simp: ebind_eq_Inr split: if_splits)
    have "closed_graph s'" if "closed_graph s"
      using that by (auto simp: closed_graph_def s' set_add_def)
    then have "extends s s'"
      by (simp add: extends_def s' has_edge_def)
    with Some s' show ?thesis by simp
  qed
qed

lemma cdx_depends_on_extends:
  "cdx_depends_on r cs s = Inr s' \<Longrightarrow> key_in r (map fst (nodes s)) \<Longrightarrow> extends s s' \<and> roots s' = roots s"
proof (induction cs arbitrary: s)
  case Nil
  then show ?case by simp
next
  case (Cons child cs)
  show ?case
  proof (cases "truthy child")
    case False
    with Cons show ?thesis by simp
  next
    case True
    with Cons.prems obtain c where
      r: "cdx_depends_on r cs (s\<lparr>nodes := setdefault (nodes s) c (json_of_key c),
                                  edges := edges_add (edges s) r c\<rparr>) = Inr s'"
      by (auto simp: ebind_eq_Inr)
    let ?s1 = "s\<lparr>nodes := setdefault (nodes s) c (json_of_key c), edges := edges_add (edges s) r c\<rparr>"
    have e: "extends s ?s1"
      using Cons.prems(2) by (intro extends_step) simp_all
    have "key_in r (map fst (nodes ?s1))" using Cons.prems(2) by simp
    from Cons.IH[OF r this] e show ?thesis by (auto intro: extends_trans)
  qed
qed

lemma cdx_dependencies_extends:
  "cdx_dependencies ds s = Inr s' \<Longrightarrow> extends s s' \<and> roots s' = roots s"
proof (induction ds arbitrary: s)
  case Nil
  then show ?case by simp
next
  case (Cons dep ds)
  from Cons.prems obtain ref where ref: "get dep ''ref'' = Inr ref" and
    rest: "(if \<not> truthy ref then cdx_dependencies ds s
            else ebind (to_key ref) (\<lambda>r.
                 ebind (get dep ''dependsOn'') (\<lambda>d.
                 ebind (py_iter (py_or d (JArr []))) (\<lambda>children.
                 ebind (cdx_depends_on r children
                          (s\<lparr>nodes := setdefault (nodes s) r (json_of_key r)\<rparr>)) (\<lambda>s'.
                   cdx_dependencies ds s'))))) = Inr s'"
    by (auto simp: ebind_eq_Inr)
  show ?case
  proof (cases "truthy ref")
    case False
    with rest Cons.IH show ?thesis by simp
  next
    case True
    with rest obtain r children s1 where
      d: "cdx_depends_on r children (s\<lparr>nodes := setdefault (nodes s) r (json_of_key r)\<rparr>) = Inr s1"
      and r: "cdx_dependencies ds s1 = Inr s'"
      by (auto simp: ebind_eq_Inr)
    let ?s0 = "s\<lparr>nodes := setdefault (nodes s) r (json_of_key r)\<rparr>"
    have e0: "extends s ?s0" by (rule extends_nodes) simp
    have "key_in r (map fst (nodes ?s0))" by simp
    from cdx_depends_on_extends[OF d this] have e1: "extends ?s0 s1" and r1: "roots s1 = roots s"
      by simp_all
    from Cons.IH[OF r] e0 e1 r1 show ?thesis by (auto intro: extends_trans)
  qed
qed

lemma cdx_inline_children_extends:
  "cdx_inline_children src cs s = Inr s' \<Longrightarrow> extends s s' \<and> roots s' = roots s"
proof (induction cs arbitrary: s)
  case Nil
  then show ?case by simp
next
  case (Cons child cs)
  from Cons.prems obtain a c where
    r: "cdx_inline_children src cs
          (s\<lparr>nodes := setdefault (setdefault (nodes s) a (json_of_key a)) c (json_of_key c),
             edges := edges_add (edges s) a c\<rparr>) = Inr s'"
    by (auto simp: ebind_eq_Inr)
  let ?s1 = "s\<lparr>nodes := setdefault (setdefault (nodes s) a (json_of_key a)) c (json_of_key c),
               edges := edges_add (edges s) a c\<rparr>"
  have e: "extends s ?s1"
    by (intro extends_step) simp_all
  from Cons.IH[OF r] e show ?case by (auto intro: extends_trans)
qed

lemma cdx_inline_extends:
  "cdx_inline cs s = Inr s' \<Longrightarrow> extends s s' \<and> roots s' = roots s"
proof (induction cs arbitrary: s)
  case Nil
  then show ?case by simp
next
  case (Cons c cs)
  from Cons.prems obtain src d where
    rest: "(case py_or d (JArr []) of
              JArr children \<Rightarrow> ebind (cdx_inline_children src children s) (\<lambda>s'. cdx_inline cs s')
            | _ \<Rightarrow> cdx_inline cs s) = Inr s'"
    by (auto simp: ebind_eq_Inr)
  show ?case
  proof (cases "py_or d (JArr [])")
    case (JArr children)
    with rest obtain s1 where i: "cdx_inline_children src children s = Inr s1"
      and r: "cdx_inline cs s1 = Inr s'"
      by (auto simp: ebind_eq_Inr)
    from cdx_inline_children_extends[OF i] Cons.IH[OF r] show ?thesis
      by (auto intro: extends_trans)
  qed (use rest Cons.IH in auto)
qed

lemma closed_graph_SBOM [simp]: "closed_graph SBOM"
  by (simp add: closed_graph_def SBOM_def)

lemma edges_wf_SBOM [simp]: "edges_wf (edges SBOM)"
  by (simp add: SBOM_def)

lemma cdx_collect_inv:
  assumes "cdx_collect fmt obj = Inr (s, ro, comps)"
  shows "edges_wf (edges s) \<and> closed_graph s \<and>
         (\<forall>r. ro = Some r \<longrightarrow> key_in r (map fst (nodes s)))"
proof -
  from assms obtain s1 s2 deps where
    c: "cdx_components fmt comps SBOM = Inr s1" and
    m: "cdx_metadata fmt obj s1 = Inr (s2, ro)" and
    d: "cdx_dependencies deps s2 = Inr s"
    by (auto simp: cdx_collect_def ebind_eq_Inr)
  from cdx_components_extends[OF c] have 1: "extends SBOM s1" by simp
  from cdx_metadata_extends[OF m] have 2: "extends s1 s2"
    and r: "\<forall>r. ro = Some r \<longrightarrow> key_in r (map fst (nodes s2))" by simp_all
  from cdx_dependencies_extends[OF d] have 3: "extends s2 s" by simp
  from 1 2 3 have "extends SBOM s" by (blast intro: extends_trans)
  then have "edges_wf (edges s) \<and> closed_graph s" by (simp add: extends_def)
  moreover from r 3 have "\<forall>r. ro = Some r \<longrightarrow> key_in r (map fst (nodes s))"
    by (simp add: extends_def)
  ultimately show ?thesis by simp
qed

lemma cdx_build_inv:
  assumes "cdx_build fmt obj = Inr (s, ro)"
  shows "edges_wf (edges s) \<and> closed_graph s \<and>
         (\<forall>r. ro = Some r \<longrightarrow> key_in r (map fst (nodes s)))"
proof -
  from assms obtain s3 comps where c: "cdx_collect fmt obj = Inr (s3, ro, comps)"
    and rest: "(if edges s3 = [] \<and> comps \<noteq> []
                then ebind (cdx_inline comps s3) (\<lambda>s4. Inr (s4, ro))
                else Inr (s3, ro)) = Inr (s, ro)"
    by (auto simp: cdx_build_def ebind_eq_Inr split: if_splits)
  note inv = cdx_collect_inv[OF c]
  show ?thesis
  proof (cases "edges s3 = [] \<and> comps \<noteq> []")
    case False
    with rest inv show ?thesis by simp
  next
    case True
    with rest have "cdx_inline comps s3 = Inr s" by (auto simp: ebind_eq_Inr)
    from cdx_inline_extends[OF this] have "extends s3 s" by simp
    with inv show ?thesis by (simp add: extends_def)
  qed
qed

lemma cdx_build_root:
  assumes "cdx_build fmt obj = Inr (s, ro)"
    and "meta_component obj = Inr mc" and "truthy mc"
    and "cx_id mc = Inr rid" and "truthy rid"
  shows "\<exists>r. to_key rid = Inr r \<and> ro = Some r"
proof -
  from assms(1) obtain s1 s2 where "cdx_metadata fmt obj s1 = Inr (s2, ro)"
    by (auto simp: cdx_build_def cdx_collect_def ebind_eq_Inr split: if_splits)
  with assms(2-5) show ?thesis
    by (auto simp: cdx_metadata_def ebind_eq_Inr)
qed

lemma hk_hk [simp]: "hk (hk k) = hk k"
  by (cases k) simp_all

lemma dict_get_hk: "hk a = hk b \<Longrightarrow> dict_get d a = dict_get d b"
  by (simp add: dict_get_def)

lemma top_level_nodes [simp]: "top_level (s\<lparr>nodes := N\<rparr>) = top_level s"
  by (simp add: top_level_def)

lemma top_level_roots [simp]: "top_level (s\<lparr>roots := R\<rparr>) = top_level s"
  by (simp add: top_level_def)

lemma has_edge_roots_update [simp]: "has_edge (s\<lparr>roots := R\<rparr>) = has_edge s"
  by (simp add: has_edge_def fun_eq_iff)

lemma cdx_roots_Some:
  assumes "cdx_roots s (Some r) = Inr g" and "key_in r (map fst (nodes s))"
  shows "roots g = [r] \<and> nodes g = nodes s \<and>
         (\<forall>a b. has_edge g a b \<longleftrightarrow>
                  has_edge s a b \<or>
                  (hk a = hk r \<and> \<not> key_in r (map fst (edges s)) \<and> key_in b (top_level s)))"
proof (cases "key_in r (map fst (edges s))")
  case True
  with assms have g: "roots g = [r]" "nodes g = nodes s" "edges g = edges s"
    by (auto simp: cdx_roots_def Let_def split: if_splits)
  then have "has_edge g = has_edge s" by (simp add: has_edge_def fun_eq_iff)
  with g True show ?thesis by simp
next
  case False
  with assms obtain tl where tl: "py_sorted (top_level s) = Inr tl"
    and g: "roots g = [r]" "nodes g = nodes s"
           "edges g = (if tl \<noteq> [] then dict_set (edges s) r (py_set tl) else edges s)"
    by (auto simp: cdx_roots_def Let_def ebind_eq_Inr split: if_splits)
  have none: "dict_get (edges s) a = None" if "hk a = hk r" for a
    using False that dict_get_None_iff[of "edges s" r] dict_get_hk[of a r "edges s"] by simp
  have "has_edge g a b \<longleftrightarrow> has_edge s a b \<or> (hk a = hk r \<and> key_in b (top_level s))" for a b
  proof (cases "tl = []")
    case True
    with tl have "top_level s = []" using set_py_sorted[of "top_level s" tl] by simp
    with True g show ?thesis by (simp add: has_edge_def)
  next
    case nonempty: False
    show ?thesis
    proof (cases "hk a = hk r")
      case True
      with nonempty g none[OF True] key_in_py_sorted[OF tl, of b] show ?thesis
        by (simp add: has_edge_def)
    next
      case False
      with nonempty g show ?thesis by (auto simp: has_edge_def)
    qed
  qed
  with g False show ?thesis by simp
qed

lemma key_in_top_level:
  assumes "edges_wf (edges s)"
  shows "key_in b (top_level s) \<longleftrightarrow> (\<exists>c. has_edge s b c) \<and> (\<forall>c. \<not> has_edge s c b)"
proof -
  have "key_in b (top_level s) \<longleftrightarrow>
          key_in b (map fst (edges s)) \<and> \<not> key_in b (all_children (edges s))"
    unfolding top_level_def
    by (rule key_in_filter) (simp add: key_in_def)
  then show ?thesis
    by (simp add: is_source_iff[OF assms] is_target_iff[OF assms])
qed

subsection \<open>C1: the declared root\<close>

text \<open>
  C1. For every CycloneDX document whose \<^verbatim>\<open>metadata.component\<close> yields a derivable id
  (\<open>root_id\<close>, truthy), the graph that normalization returns has the root set
  \<open>{root_id}\<close> and nothing else, whatever candidates the topology gave. With \<open>s\<close> the
  graph collected from the document before root inference: the edges of the result are
  the edges of \<open>s\<close> and, when the declared root has no outgoing edge in \<open>s\<close>, one edge from
  the declared root to every id that is the source of an edge and the target of none.
\<close>

theorem declared_root_overrides:
  assumes "meta_component obj = Inr mc" and "truthy mc"
    and "cx_id mc = Inr root_id" and "truthy root_id"
    and "from_cyclonedx fmt obj = Inr g"
  shows "\<exists>r s. to_key root_id = Inr r \<and> cdx_build fmt obj = Inr (s, Some r) \<and>
           roots g = [r] \<and>
           (\<forall>a b. has_edge g a b \<longleftrightarrow>
                    has_edge s a b \<or>
                    (hk a = hk r \<and> (\<forall>c. \<not> has_edge s r c) \<and>
                     (\<exists>c. has_edge s b c) \<and> (\<forall>c. \<not> has_edge s c b)))"
proof -
  from assms(5) obtain s ro where b: "cdx_build fmt obj = Inr (s, ro)"
    and g: "cdx_roots s ro = Inr g"
    by (auto simp: from_cyclonedx_def ebind_eq_Inr)
  from cdx_build_root[OF b assms(1-4)] obtain r where r: "to_key root_id = Inr r" "ro = Some r"
    by blast
  from cdx_build_inv[OF b] r have wf: "edges_wf (edges s)" and k: "key_in r (map fst (nodes s))"
    by simp_all
  from cdx_roots_Some[OF g[unfolded r(2)] k]
  have "roots g = [r]" and
    e: "\<And>a b. has_edge g a b \<longleftrightarrow>
           has_edge s a b \<or>
           (hk a = hk r \<and> \<not> key_in r (map fst (edges s)) \<and> key_in b (top_level s))"
    by simp_all
  moreover have "has_edge g a b \<longleftrightarrow>
           has_edge s a b \<or>
           (hk a = hk r \<and> (\<forall>c. \<not> has_edge s r c) \<and>
            (\<exists>c. has_edge s b c) \<and> (\<forall>c. \<not> has_edge s c b))" for a b
    unfolding e key_in_top_level[OF wf] is_source_iff[OF wf] by blast
  ultimately show ?thesis using r b by blast
qed

theorem declared_root_overrides_witness:
  "from_cyclonedx (\<lambda>v. []) doc_root = Inr graph_root \<and>
   roots graph_root = [KStr ''root''] \<and>
   has_edge graph_root (KStr ''root'') (KStr ''a'') \<and>
   \<not> has_edge graph_root (KStr ''root'') (KStr ''b'')"
proof -
  let ?s = "\<lparr>nodes = [(KStr ''a'', JStr ''component''), (KStr ''b'', JStr ''component''),
                     (KStr ''root'', JStr ''component'')],
            edges = [(KStr ''a'', [KStr ''b''])], roots = [KStr ''root'']\<rparr>"
  have mc: "meta_component doc_root = Inr (JObj [(''bom-ref'', JStr ''root'')])"
    by code_simp
  have rid: "cx_id (JObj [(''bom-ref'', JStr ''root'')]) = Inr (JStr ''root'')"
    by code_simp
  have g: "from_cyclonedx (\<lambda>v. []) doc_root = Inr graph_root"
    by code_simp
  have b: "cdx_build (\<lambda>v. []) doc_root = Inr (?s, Some (KStr ''root''))"
    by code_simp
  from declared_root_overrides[OF mc _ rid _ g] b
  have r: "roots graph_root = [KStr ''root'']"
    and e: "\<And>a b. has_edge graph_root a b \<longleftrightarrow>
              has_edge ?s a b \<or>
              (hk a = hk (KStr ''root'') \<and> (\<forall>c. \<not> has_edge ?s (KStr ''root'') c) \<and>
               (\<exists>c. has_edge ?s b c) \<and> (\<forall>c. \<not> has_edge ?s c b))"
    by (auto simp: to_key_def)
  have 1: "has_edge ?s (KStr ''a'') (KStr ''b'')" by (simp add: has_edge_def)
  have 2: "\<not> has_edge ?s (KStr ''root'') c" for c by (simp add: has_edge_def)
  have 3: "\<not> has_edge ?s c (KStr ''a'')" for c by (auto simp: has_edge_def)
  have 4: "\<not> has_edge ?s (KStr ''b'') c" for c by (simp add: has_edge_def)
  have "has_edge graph_root (KStr ''root'') (KStr ''a'')"
    unfolding e using 1 2 3 by blast
  moreover have "\<not> has_edge graph_root (KStr ''root'') (KStr ''b'')"
    unfolding e using 2 4 by blast
  ultimately show ?thesis using g r by simp
qed

subsection \<open>The SPDX loops\<close>

lemma spdx_packages_extends:
  "spdx_packages fmt ps s = Inr s' \<Longrightarrow> extends s s' \<and> edges s' = edges s \<and> roots s' = roots s"
proof (induction ps arbitrary: s)
  case Nil
  then show ?case by simp
next
  case (Cons pkg ps)
  from Cons.prems obtain sid where
    rest: "(if truthy sid then
             ebind (spdx_pkg_label fmt pkg) (\<lambda>l. ebind (to_key sid) (\<lambda>k.
               spdx_packages fmt ps (s\<lparr>nodes := dict_set (nodes s) k l\<rparr>)))
           else spdx_packages fmt ps s) = Inr s'"
    by (auto simp: ebind_eq_Inr)
  show ?case
  proof (cases "truthy sid")
    case False
    with rest Cons.IH show ?thesis by simp
  next
    case True
    with rest obtain l k where
      r: "spdx_packages fmt ps (s\<lparr>nodes := dict_set (nodes s) k l\<rparr>) = Inr s'"
      by (auto simp: ebind_eq_Inr)
    have "extends s (s\<lparr>nodes := dict_set (nodes s) k l\<rparr>)"
      by (rule extends_nodes) simp
    with Cons.IH[OF r] show ?thesis by (auto intro: extends_trans)
  qed
qed

lemma spdx_relationship_extends:
  assumes "spdx_relationship rel s = Inr s'"
  shows "extends s s' \<and> roots s' = roots s"
proof -
  from assms obtain rt src dst where
    rest: "(if \<not> truthy src \<or> \<not> truthy dst then Inr s
            else ebind (to_key src) (\<lambda>a. ebind (to_key dst) (\<lambda>b.
              let N = setdefault (setdefault (nodes s) a (json_of_key a)) b (json_of_key b)
              in Inr (s\<lparr>nodes := N,
                        edges := (if rt \<in> set forward_types then edges_add (edges s) a b
                                  else if rt \<in> set reverse_types then edges_add (edges s) b a
                                  else edges s)\<rparr>)))) = Inr s'"
    by (auto simp: spdx_relationship_def ebind_eq_Inr)
  show ?thesis
  proof (cases "\<not> truthy src \<or> \<not> truthy dst")
    case True
    with rest show ?thesis by auto
  next
    case False
    with rest obtain a b where
      s': "s' = s\<lparr>nodes := setdefault (setdefault (nodes s) a (json_of_key a)) b (json_of_key b),
                  edges := (if rt \<in> set forward_types then edges_add (edges s) a b
                            else if rt \<in> set reverse_types then edges_add (edges s) b a
                            else edges s)\<rparr>"
      by (auto simp: ebind_eq_Inr Let_def)
    let ?N = "setdefault (setdefault (nodes s) a (json_of_key a)) b (json_of_key b)"
    have f: "extends s (s\<lparr>nodes := ?N, edges := edges_add (edges s) a b\<rparr>)"
      by (intro extends_step) simp_all
    have r: "extends s (s\<lparr>nodes := ?N, edges := edges_add (edges s) b a\<rparr>)"
      by (intro extends_step) simp_all
    have n: "extends s (s\<lparr>nodes := ?N\<rparr>)"
      by (rule extends_nodes) simp
    have "s\<lparr>nodes := ?N, edges := edges s\<rparr> = s\<lparr>nodes := ?N\<rparr>" by simp
    with f r n show ?thesis by (simp add: s')
  qed
qed

lemma spdx_relationships_extends:
  "spdx_relationships rels s = Inr s' \<Longrightarrow> extends s s' \<and> roots s' = roots s"
proof (induction rels arbitrary: s)
  case Nil
  then show ?case by simp
next
  case (Cons rel rels)
  from Cons.prems obtain s1 where 1: "spdx_relationship rel s = Inr s1"
    and r: "spdx_relationships rels s1 = Inr s'"
    by (auto simp: ebind_eq_Inr)
  from spdx_relationship_extends[OF 1] Cons.IH[OF r] show ?case
    by (auto intro: extends_trans)
qed

lemma set_set_add_subset: "set (set_add ks k) \<subseteq> insert k (set ks)"
  by (auto simp: set_add_def)

lemma set_set_update_subset: "set (set_update ks xs) \<subseteq> set ks \<union> set xs"
  unfolding set_update_def
proof (induction xs arbitrary: ks)
  case Nil
  show ?case by simp
next
  case (Cons x xs)
  from Cons.IH[of "set_add ks x"] set_set_add_subset[of ks x] show ?case by auto
qed

lemma set_py_set_subset: "set (py_set xs) \<subseteq> set xs"
  using set_set_update_subset[of "[]" xs] by (simp add: py_set_def)

lemma closed_graph_roots:
  assumes "closed_graph s" and "\<And>r. r \<in> set R \<Longrightarrow> key_in r (map fst (nodes s))"
  shows "closed_graph (s\<lparr>roots := R\<rparr>)"
  using assms by (simp add: closed_graph_def)

lemma spdx_describes_closed:
  "spdx_describes rids s = Inr s' \<Longrightarrow> closed_graph s \<Longrightarrow>
     closed_graph s' \<and> nodes s' = nodes s \<and> edges s' = edges s"
proof (induction rids arbitrary: s)
  case Nil
  then show ?case by simp
next
  case (Cons rid rids)
  from Cons.prems(1) obtain r where
    rest: "spdx_describes rids
             (if key_in r (map fst (nodes s)) then s\<lparr>roots := set_add (roots s) r\<rparr> else s) = Inr s'"
    by (auto simp: ebind_eq_Inr)
  let ?s1 = "if key_in r (map fst (nodes s)) then s\<lparr>roots := set_add (roots s) r\<rparr> else s"
  have "closed_graph ?s1"
    using Cons.prems(2) set_set_add_subset[of "roots s" r]
    by (auto simp: closed_graph_def)
  from Cons.IH[OF rest this] show ?case by (auto split: if_splits)
qed

lemma filter_keys_known:
  assumes "r \<in> set (filter P ks)"
  shows "key_in r ks"
  by (rule key_in_mem) (use assms in simp)

lemma from_spdx_closed:
  assumes "from_spdx fmt obj = Inr g"
  shows "closed_graph g"
proof -
  from assms obtain pkgs s1 rels s2 desc s3 where
    p: "spdx_packages fmt pkgs SBOM = Inr s1" and
    r: "spdx_relationships rels s1 = Inr s2" and
    d: "spdx_describes desc s2 = Inr s3" and
    g: "g = (if roots s3 = []
             then s3\<lparr>roots := filter (\<lambda>k. \<not> key_in k (all_children (edges s3))) (map fst (nodes s3))\<rparr>
             else s3)"
    by (auto simp: from_spdx_def ebind_eq_Inr split: if_splits)
  from spdx_packages_extends[OF p] spdx_relationships_extends[OF r]
  have "extends SBOM s2" by (blast intro: extends_trans)
  then have "closed_graph s2" by (simp add: extends_def)
  from spdx_describes_closed[OF d this] have c3: "closed_graph s3" by simp
  show ?thesis
  proof (cases "roots s3 = []")
    case True
    with g c3 show ?thesis
      by (auto intro!: closed_graph_roots filter_keys_known)
  next
    case False
    with g c3 show ?thesis by simp
  qed
qed

lemma cdx_roots_closed:
  assumes "cdx_roots s ro = Inr g" and c: "closed_graph s"
    and k: "\<forall>r. ro = Some r \<longrightarrow> key_in r (map fst (nodes s))"
  shows "closed_graph g \<and> nodes g = nodes s"
proof (cases ro)
  case None
  let ?cand = "filter (\<lambda>k. \<not> key_in k (all_children (edges s))) (map fst (nodes s))"
  from assms(1) None have g: "g = (if ?cand \<noteq> [] then s\<lparr>roots := set_update (roots s) ?cand\<rparr> else s)"
    by (auto simp: cdx_roots_def Let_def)
  have "key_in r (map fst (nodes s))" if "r \<in> set (set_update (roots s) ?cand)" for r
  proof -
    from that set_set_update_subset[of "roots s" ?cand]
    have "r \<in> set (roots s) \<or> r \<in> set ?cand" by auto
    then show ?thesis
    proof
      assume "r \<in> set (roots s)"
      with c show ?thesis by (simp add: closed_graph_def)
    next
      assume "r \<in> set ?cand"
      then show ?thesis by (rule filter_keys_known)
    qed
  qed
  with c g show ?thesis by (auto intro!: closed_graph_roots)
next
  case (Some r)
  with k have kr: "key_in r (map fst (nodes s))" by simp
  have c2: "closed_graph (s\<lparr>roots := [r]\<rparr>)"
    using c kr by (auto intro!: closed_graph_roots)
  from assms(1) Some
  have "(g = s\<lparr>roots := [r]\<rparr>) \<or>
        (\<exists>tl. py_sorted (top_level s) = Inr tl \<and>
              g = s\<lparr>roots := [r], edges := dict_set (edges s) r (py_set tl)\<rparr>)"
    by (auto simp: cdx_roots_def Let_def ebind_eq_Inr split: if_splits)
  then show ?thesis
  proof
    assume "g = s\<lparr>roots := [r]\<rparr>"
    with c2 show ?thesis by simp
  next
    assume "\<exists>tl. py_sorted (top_level s) = Inr tl \<and>
              g = s\<lparr>roots := [r], edges := dict_set (edges s) r (py_set tl)\<rparr>"
    then obtain tl where tl: "py_sorted (top_level s) = Inr tl"
      and g: "g = s\<lparr>roots := [r], edges := dict_set (edges s) r (py_set tl)\<rparr>" by blast
    have tlk: "key_in x (map fst (nodes s))" if "x \<in> set (py_set tl)" for x
    proof -
      from that set_py_set_subset[of tl] set_py_sorted[OF tl]
      have "x \<in> set (top_level s)" by auto
      then have "x \<in> set (map fst (edges s))" by (simp add: top_level_def)
      with c show ?thesis by (auto simp: closed_graph_def)
    qed
    have "key_in (fst kv) (map fst (nodes s)) \<and> (\<forall>x \<in> set (snd kv). key_in x (map fst (nodes s)))"
      if "kv \<in> set (dict_set (edges s) r (py_set tl))" for kv
      using set_dict_set[OF that]
    proof
      assume "kv \<in> set (edges s)"
      with c show ?thesis by (simp add: closed_graph_def)
    next
      assume "hk (fst kv) = hk r \<and> snd kv = py_set tl"
      with kr tlk key_in_hk[of "fst kv" r] show ?thesis by simp
    qed
    with kr show ?thesis by (simp add: g closed_graph_def)
  qed
qed

lemma from_cyclonedx_closed:
  assumes "from_cyclonedx fmt obj = Inr g"
  shows "closed_graph g"
proof -
  from assms obtain s ro where b: "cdx_build fmt obj = Inr (s, ro)"
    and g: "cdx_roots s ro = Inr g"
    by (auto simp: from_cyclonedx_def ebind_eq_Inr)
  from cdx_build_inv[OF b] cdx_roots_closed[OF g] show ?thesis by simp
qed

subsection \<open>Placeholder labels\<close>

lemma pl_SBOM [simp]: "placeholder_labels D SBOM"
  by (simp add: placeholder_labels_def SBOM_def)

lemma pl_nodes_eq: "nodes s' = nodes s \<Longrightarrow> placeholder_labels D s' = placeholder_labels D s"
  by (simp add: placeholder_labels_def)

lemma pl_dict_set:
  assumes "placeholder_labels D s" and "key_in k D"
  shows "placeholder_labels D (s\<lparr>nodes := dict_set (nodes s) k l\<rparr>)"
proof -
  have "key_in (fst kv) D \<or> snd kv = json_of_key (fst kv)"
    if "kv \<in> set (dict_set (nodes s) k l)" for kv
    using set_dict_set[OF that]
  proof
    assume "kv \<in> set (nodes s)"
    with assms(1) show ?thesis by (simp add: placeholder_labels_def)
  next
    assume "hk (fst kv) = hk k \<and> snd kv = l"
    with assms(2) key_in_hk[of "fst kv" k D] show ?thesis by simp
  qed
  then show ?thesis by (simp add: placeholder_labels_def)
qed

lemma set_setdefault: "kv \<in> set (setdefault N k v) \<Longrightarrow> kv \<in> set N \<or> kv = (k, v)"
  by (auto simp: setdefault_def split: if_splits)

lemma pl_setdefault_self:
  assumes "\<forall>kv \<in> set N. key_in (fst kv) D \<or> snd kv = json_of_key (fst kv)"
  shows "\<forall>kv \<in> set (setdefault N c (json_of_key c)). key_in (fst kv) D \<or> snd kv = json_of_key (fst kv)"
  using assms by (auto dest!: set_setdefault)

lemma pl_setdefault_declared:
  assumes "\<forall>kv \<in> set N. key_in (fst kv) D \<or> snd kv = json_of_key (fst kv)" and "key_in r D"
  shows "\<forall>kv \<in> set (setdefault N r l). key_in (fst kv) D \<or> snd kv = json_of_key (fst kv)"
  using assms by (auto dest!: set_setdefault)

lemma declared_ids_Cons_eq:
  "declared_ids idf (c # cs) =
     (case idf c of
        Inr v \<Rightarrow> if truthy v then (case to_key v of Inr k \<Rightarrow> [k] | Inl e \<Rightarrow> []) else []
      | Inl e \<Rightarrow> []) @ declared_ids idf cs"
  unfolding declared_ids_def by simp

lemma declared_ids_Cons:
  "idf c = Inr v \<Longrightarrow> truthy v \<Longrightarrow> to_key v = Inr k \<Longrightarrow> k \<in> set (declared_ids idf (c # cs))"
  unfolding declared_ids_Cons_eq by simp

lemma declared_ids_tail: "set (declared_ids idf cs) \<subseteq> set (declared_ids idf (c # cs))"
proof
  fix k assume "k \<in> set (declared_ids idf cs)"
  then show "k \<in> set (declared_ids idf (c # cs))"
    unfolding declared_ids_Cons_eq set_append by (rule UnI2)
qed

lemma cdx_components_pl:
  "cdx_components fmt cs s = Inr s' \<Longrightarrow> placeholder_labels D s \<Longrightarrow>
     (\<forall>k \<in> set (declared_ids cx_id cs). key_in k D) \<Longrightarrow> placeholder_labels D s'"
proof (induction cs arbitrary: s)
  case Nil
  then show ?case by simp
next
  case (Cons c cs)
  from Cons.prems(1) obtain cid where cid: "cx_id c = Inr cid" and
    rest: "(if truthy cid then
             ebind (cx_label fmt c) (\<lambda>l. ebind (to_key cid) (\<lambda>k.
               cdx_components fmt cs (s\<lparr>nodes := dict_set (nodes s) k l\<rparr>)))
           else cdx_components fmt cs s) = Inr s'"
    by (auto simp: ebind_eq_Inr)
  from Cons.prems(3) declared_ids_tail[of cx_id cs c]
  have tail: "\<forall>k \<in> set (declared_ids cx_id cs). key_in k D" by blast
  show ?case
  proof (cases "truthy cid")
    case False
    with rest Cons.IH[OF _ Cons.prems(2) tail] show ?thesis by simp
  next
    case True
    with rest obtain l k where k: "to_key cid = Inr k" and
      r: "cdx_components fmt cs (s\<lparr>nodes := dict_set (nodes s) k l\<rparr>) = Inr s'"
      by (auto simp: ebind_eq_Inr)
    from declared_ids_Cons[of cx_id c cid k cs, OF cid True k] Cons.prems(3)
    have "key_in k D" by blast
    from Cons.IH[OF r pl_dict_set[OF Cons.prems(2) this] tail] show ?thesis .
  qed
qed

lemma spdx_packages_pl:
  "spdx_packages fmt ps s = Inr s' \<Longrightarrow> placeholder_labels D s \<Longrightarrow>
     (\<forall>k \<in> set (declared_ids spdx_id ps). key_in k D) \<Longrightarrow> placeholder_labels D s'"
proof (induction ps arbitrary: s)
  case Nil
  then show ?case by simp
next
  case (Cons pkg ps)
  from Cons.prems(1) obtain sid where sid: "spdx_id pkg = Inr sid" and
    rest: "(if truthy sid then
             ebind (spdx_pkg_label fmt pkg) (\<lambda>l. ebind (to_key sid) (\<lambda>k.
               spdx_packages fmt ps (s\<lparr>nodes := dict_set (nodes s) k l\<rparr>)))
           else spdx_packages fmt ps s) = Inr s'"
    by (auto simp: ebind_eq_Inr)
  from Cons.prems(3) declared_ids_tail[of spdx_id ps pkg]
  have tail: "\<forall>k \<in> set (declared_ids spdx_id ps). key_in k D" by blast
  show ?case
  proof (cases "truthy sid")
    case False
    with rest Cons.IH[OF _ Cons.prems(2) tail] show ?thesis by simp
  next
    case True
    with rest obtain l k where k: "to_key sid = Inr k" and
      r: "spdx_packages fmt ps (s\<lparr>nodes := dict_set (nodes s) k l\<rparr>) = Inr s'"
      by (auto simp: ebind_eq_Inr)
    from declared_ids_Cons[of spdx_id pkg sid k ps, OF sid True k] Cons.prems(3)
    have "key_in k D" by blast
    from Cons.IH[OF r pl_dict_set[OF Cons.prems(2) this] tail] show ?thesis .
  qed
qed

lemma cdx_metadata_pl:
  assumes "cdx_metadata fmt obj s = Inr (s', ro)" and "placeholder_labels D s"
    and "\<forall>r. ro = Some r \<longrightarrow> key_in r D"
  shows "placeholder_labels D s'"
proof (cases ro)
  case None
  with assms(1) have "s' = s"
    by (auto simp: cdx_metadata_def ebind_eq_Inr split: if_splits)
  with assms(2) show ?thesis by simp
next
  case (Some r)
  with assms(1) obtain l where
    s': "s' = s\<lparr>nodes := setdefault (nodes s) r l, roots := set_add (roots s) r\<rparr>"
    by (auto simp: cdx_metadata_def ebind_eq_Inr split: if_splits)
  from assms(3) Some have "key_in r D" by simp
  from pl_setdefault_declared[OF assms(2)[unfolded placeholder_labels_def] this, of l]
  show ?thesis by (simp add: s' placeholder_labels_def)
qed

lemma cdx_depends_on_pl:
  "cdx_depends_on r cs s = Inr s' \<Longrightarrow> placeholder_labels D s \<Longrightarrow> placeholder_labels D s'"
proof (induction cs arbitrary: s)
  case Nil
  then show ?case by simp
next
  case (Cons child cs)
  show ?case
  proof (cases "truthy child")
    case False
    with Cons show ?thesis by simp
  next
    case True
    with Cons.prems(1) obtain c where
      r: "cdx_depends_on r cs (s\<lparr>nodes := setdefault (nodes s) c (json_of_key c),
                                  edges := edges_add (edges s) r c\<rparr>) = Inr s'"
      by (auto simp: ebind_eq_Inr)
    have "placeholder_labels D (s\<lparr>nodes := setdefault (nodes s) c (json_of_key c),
                                  edges := edges_add (edges s) r c\<rparr>)"
      using pl_setdefault_self[OF Cons.prems(2)[unfolded placeholder_labels_def], of c]
      by (simp add: placeholder_labels_def)
    from Cons.IH[OF r this] show ?thesis .
  qed
qed

lemma cdx_dependencies_pl:
  "cdx_dependencies ds s = Inr s' \<Longrightarrow> placeholder_labels D s \<Longrightarrow> placeholder_labels D s'"
proof (induction ds arbitrary: s)
  case Nil
  then show ?case by simp
next
  case (Cons dep ds)
  from Cons.prems(1) obtain ref where
    rest: "(if \<not> truthy ref then cdx_dependencies ds s
            else ebind (to_key ref) (\<lambda>r.
                 ebind (get dep ''dependsOn'') (\<lambda>d.
                 ebind (py_iter (py_or d (JArr []))) (\<lambda>children.
                 ebind (cdx_depends_on r children
                          (s\<lparr>nodes := setdefault (nodes s) r (json_of_key r)\<rparr>)) (\<lambda>s'.
                   cdx_dependencies ds s'))))) = Inr s'"
    by (auto simp: ebind_eq_Inr)
  show ?case
  proof (cases "truthy ref")
    case False
    with rest Cons.IH[OF _ Cons.prems(2)] show ?thesis by simp
  next
    case True
    with rest obtain r children s1 where
      d: "cdx_depends_on r children (s\<lparr>nodes := setdefault (nodes s) r (json_of_key r)\<rparr>) = Inr s1"
      and r: "cdx_dependencies ds s1 = Inr s'"
      by (auto simp: ebind_eq_Inr)
    have "placeholder_labels D (s\<lparr>nodes := setdefault (nodes s) r (json_of_key r)\<rparr>)"
      using pl_setdefault_self[OF Cons.prems(2)[unfolded placeholder_labels_def], of r]
      by (simp add: placeholder_labels_def)
    from Cons.IH[OF r cdx_depends_on_pl[OF d this]] show ?thesis .
  qed
qed

lemma cdx_inline_children_pl:
  "cdx_inline_children src cs s = Inr s' \<Longrightarrow> placeholder_labels D s \<Longrightarrow> placeholder_labels D s'"
proof (induction cs arbitrary: s)
  case Nil
  then show ?case by simp
next
  case (Cons child cs)
  from Cons.prems(1) obtain a c where
    r: "cdx_inline_children src cs
          (s\<lparr>nodes := setdefault (setdefault (nodes s) a (json_of_key a)) c (json_of_key c),
             edges := edges_add (edges s) a c\<rparr>) = Inr s'"
    by (auto simp: ebind_eq_Inr)
  have "placeholder_labels D
          (s\<lparr>nodes := setdefault (setdefault (nodes s) a (json_of_key a)) c (json_of_key c),
             edges := edges_add (edges s) a c\<rparr>)"
    using pl_setdefault_self[OF pl_setdefault_self[OF Cons.prems(2)[unfolded placeholder_labels_def], of a], of c]
    by (simp add: placeholder_labels_def)
  from Cons.IH[OF r this] show ?case .
qed

lemma cdx_inline_pl:
  "cdx_inline cs s = Inr s' \<Longrightarrow> placeholder_labels D s \<Longrightarrow> placeholder_labels D s'"
proof (induction cs arbitrary: s)
  case Nil
  then show ?case by simp
next
  case (Cons c cs)
  from Cons.prems(1) obtain src d where
    rest: "(case py_or d (JArr []) of
              JArr children \<Rightarrow> ebind (cdx_inline_children src children s) (\<lambda>s'. cdx_inline cs s')
            | _ \<Rightarrow> cdx_inline cs s) = Inr s'"
    by (auto simp: ebind_eq_Inr)
  show ?case
  proof (cases "py_or d (JArr [])")
    case (JArr children)
    with rest obtain s1 where i: "cdx_inline_children src children s = Inr s1"
      and r: "cdx_inline cs s1 = Inr s'"
      by (auto simp: ebind_eq_Inr)
    from Cons.IH[OF r cdx_inline_children_pl[OF i Cons.prems(2)]] show ?thesis .
  qed (use rest Cons.IH[OF _ Cons.prems(2)] in auto)
qed

lemma spdx_relationship_pl:
  assumes "spdx_relationship rel s = Inr s'" and "placeholder_labels D s"
  shows "placeholder_labels D s'"
proof -
  from assms(1) obtain rt src dst where
    rest: "(if \<not> truthy src \<or> \<not> truthy dst then Inr s
            else ebind (to_key src) (\<lambda>a. ebind (to_key dst) (\<lambda>b.
              let N = setdefault (setdefault (nodes s) a (json_of_key a)) b (json_of_key b)
              in Inr (s\<lparr>nodes := N,
                        edges := (if rt \<in> set forward_types then edges_add (edges s) a b
                                  else if rt \<in> set reverse_types then edges_add (edges s) b a
                                  else edges s)\<rparr>)))) = Inr s'"
    by (auto simp: spdx_relationship_def ebind_eq_Inr)
  have
    "s' = s \<or> (\<exists>a b. nodes s' = setdefault (setdefault (nodes s) a (json_of_key a)) b (json_of_key b))"
  proof (cases "\<not> truthy src \<or> \<not> truthy dst")
    case True
    with rest show ?thesis by auto
  next
    case False
    with rest obtain a b where
      "s' = s\<lparr>nodes := setdefault (setdefault (nodes s) a (json_of_key a)) b (json_of_key b),
                  edges := (if rt \<in> set forward_types then edges_add (edges s) a b
                            else if rt \<in> set reverse_types then edges_add (edges s) b a
                            else edges s)\<rparr>"
      by (auto simp: ebind_eq_Inr Let_def)
    then have "nodes s' = setdefault (setdefault (nodes s) a (json_of_key a)) b (json_of_key b)"
      by simp
    then show ?thesis by blast
  qed
  then show ?thesis
  proof
    assume "s' = s"
    with assms(2) show ?thesis by simp
  next
    assume "\<exists>a b. nodes s' = setdefault (setdefault (nodes s) a (json_of_key a)) b (json_of_key b)"
    then obtain a b where
      n: "nodes s' = setdefault (setdefault (nodes s) a (json_of_key a)) b (json_of_key b)" by blast
    from pl_setdefault_self[OF pl_setdefault_self[OF assms(2)[unfolded placeholder_labels_def], of a], of b]
    show ?thesis by (simp add: n placeholder_labels_def)
  qed
qed

lemma spdx_relationships_pl:
  "spdx_relationships rels s = Inr s' \<Longrightarrow> placeholder_labels D s \<Longrightarrow> placeholder_labels D s'"
proof (induction rels arbitrary: s)
  case Nil
  then show ?case by simp
next
  case (Cons rel rels)
  from Cons.prems(1) obtain s1 where 1: "spdx_relationship rel s = Inr s1"
    and r: "spdx_relationships rels s1 = Inr s'"
    by (auto simp: ebind_eq_Inr)
  from Cons.IH[OF r spdx_relationship_pl[OF 1 Cons.prems(2)]] show ?case .
qed

lemma from_cyclonedx_placeholders:
  assumes "from_cyclonedx fmt obj = Inr g"
  shows "\<exists>s ro comps. cdx_collect fmt obj = Inr (s, ro, comps) \<and>
           placeholder_labels
             (declared_ids cx_id comps @ (case ro of None \<Rightarrow> [] | Some r \<Rightarrow> [r])) g"
proof -
  from assms obtain s ro where b: "cdx_build fmt obj = Inr (s, ro)"
    and g: "cdx_roots s ro = Inr g"
    by (auto simp: from_cyclonedx_def ebind_eq_Inr)
  from b obtain s3 comps where c: "cdx_collect fmt obj = Inr (s3, ro, comps)"
    and rest: "(if edges s3 = [] \<and> comps \<noteq> []
                then ebind (cdx_inline comps s3) (\<lambda>s4. Inr (s4, ro))
                else Inr (s3, ro)) = Inr (s, ro)"
    by (auto simp: cdx_build_def ebind_eq_Inr split: if_splits)
  let ?D = "declared_ids cx_id comps @ (case ro of None \<Rightarrow> [] | Some r \<Rightarrow> [r])"
  from c obtain s1 s2 deps where
    1: "cdx_components fmt comps SBOM = Inr s1" and
    2: "cdx_metadata fmt obj s1 = Inr (s2, ro)" and
    3: "cdx_dependencies deps s2 = Inr s3"
    by (auto simp: cdx_collect_def ebind_eq_Inr)
  have "placeholder_labels ?D s1"
    by (rule cdx_components_pl[OF 1]) (auto intro: key_in_mem)
  then have "placeholder_labels ?D s2"
    by (rule cdx_metadata_pl[OF 2]) auto
  then have p3: "placeholder_labels ?D s3"
    by (rule cdx_dependencies_pl[OF 3])
  have "placeholder_labels ?D s"
  proof (cases "edges s3 = [] \<and> comps \<noteq> []")
    case True
    with rest have "cdx_inline comps s3 = Inr s" by (auto simp: ebind_eq_Inr)
    from cdx_inline_pl[OF this p3] show ?thesis .
  next
    case False
    with rest p3 show ?thesis by simp
  qed
  moreover from cdx_build_inv[OF b] cdx_roots_closed[OF g] have "nodes g = nodes s" by simp
  ultimately have "placeholder_labels ?D g" using pl_nodes_eq[of g s ?D] by simp
  with c show ?thesis by blast
qed

lemma from_spdx_placeholders:
  assumes "from_spdx fmt obj = Inr g"
  shows "\<exists>pv pkgs. get_default obj ''packages'' (JArr []) = Inr pv \<and>
           py_iter (py_or pv (JArr [])) = Inr pkgs \<and>
           placeholder_labels (declared_ids spdx_id pkgs) g"
proof -
  from assms obtain pv pkgs s1 rels s2 desc s3 where
    pv: "get_default obj ''packages'' (JArr []) = Inr pv" and
    it: "py_iter (py_or pv (JArr [])) = Inr pkgs" and
    p: "spdx_packages fmt pkgs SBOM = Inr s1" and
    r: "spdx_relationships rels s1 = Inr s2" and
    d: "spdx_describes desc s2 = Inr s3" and
    g: "g = (if roots s3 = []
             then s3\<lparr>roots := filter (\<lambda>k. \<not> key_in k (all_children (edges s3))) (map fst (nodes s3))\<rparr>
             else s3)"
    by (auto simp: from_spdx_def ebind_eq_Inr split: if_splits)
  let ?D = "declared_ids spdx_id pkgs"
  have "placeholder_labels ?D s1"
    by (rule spdx_packages_pl[OF p]) (auto intro: key_in_mem)
  then have p2: "placeholder_labels ?D s2"
    by (rule spdx_relationships_pl[OF r])
  from spdx_packages_extends[OF p] spdx_relationships_extends[OF r]
  have "extends SBOM s2" by (blast intro: extends_trans)
  then have "closed_graph s2" by (simp add: extends_def)
  from spdx_describes_closed[OF d this] have "nodes s3 = nodes s2" by simp
  with g have "nodes g = nodes s2" by simp
  with p2 have "placeholder_labels ?D g" using pl_nodes_eq[of g s2 ?D] by simp
  with pv it show ?thesis by blast
qed

subsection \<open>C6: the invariants of the graph\<close>

text \<open>
  C6. Every graph that either normalizer returns satisfies both invariants of the data
  model: every id that occurs in the edge map, as a source or as a target, is a key of
  the node map, and the candidate roots are keys of the node map. A node that no
  component (no package) and no metadata component declares is a placeholder: its label
  is its own id.
\<close>

theorem normalizers_establish_invariants:
  "(from_cyclonedx fmt obj = Inr g \<longrightarrow>
      closed_graph g \<and>
      (\<exists>s ro comps. cdx_collect fmt obj = Inr (s, ro, comps) \<and>
         placeholder_labels
           (declared_ids cx_id comps @ (case ro of None \<Rightarrow> [] | Some r \<Rightarrow> [r])) g)) \<and>
   (from_spdx fmt obj = Inr g \<longrightarrow>
      closed_graph g \<and>
      (\<exists>pv pkgs. get_default obj ''packages'' (JArr []) = Inr pv \<and>
         py_iter (py_or pv (JArr [])) = Inr pkgs \<and>
         placeholder_labels (declared_ids spdx_id pkgs) g))"
  using from_cyclonedx_closed[of fmt obj g] from_cyclonedx_placeholders[of fmt obj g]
    from_spdx_closed[of fmt obj g] from_spdx_placeholders[of fmt obj g]
  by blast

theorem normalizers_establish_invariants_witness:
  "from_cyclonedx (\<lambda>v. []) doc_cdx = Inr graph_cdx \<and> closed_graph graph_cdx \<and>
   from_spdx (\<lambda>v. []) doc_spdx = Inr graph_spdx \<and> closed_graph graph_spdx \<and>
   placeholder_labels [KStr ''P''] graph_spdx \<and>
   dict_get (nodes graph_spdx) (KStr ''Q'') = Some (JStr ''Q'')"
proof -
  have c: "from_cyclonedx (\<lambda>v. []) doc_cdx = Inr graph_cdx"
    by code_simp
  have s: "from_spdx (\<lambda>v. []) doc_spdx = Inr graph_spdx"
    by code_simp
  have pv: "get_default doc_spdx ''packages'' (JArr []) =
              Inr (JArr [JObj [(''SPDXID'', JStr ''P''), (''name'', JStr ''p'')]])"
    by code_simp
  have it: "py_iter (py_or (JArr [JObj [(''SPDXID'', JStr ''P''), (''name'', JStr ''p'')]]) (JArr [])) =
              Inr [JObj [(''SPDXID'', JStr ''P''), (''name'', JStr ''p'')]]"
    by code_simp
  have d: "declared_ids spdx_id [JObj [(''SPDXID'', JStr ''P''), (''name'', JStr ''p'')]] = [KStr ''P'']"
    by code_simp
  have q: "dict_get (nodes graph_spdx) (KStr ''Q'') = Some (JStr ''Q'')"
    by code_simp
  from normalizers_establish_invariants [of "\<lambda>v. []" doc_cdx graph_cdx] c
  have 1: "closed_graph graph_cdx" by blast
  from normalizers_establish_invariants [of "\<lambda>v. []" doc_spdx graph_spdx] s
  have 2: "closed_graph graph_spdx"
    and "\<exists>pv pkgs. get_default doc_spdx ''packages'' (JArr []) = Inr pv \<and>
           py_iter (py_or pv (JArr [])) = Inr pkgs \<and>
           placeholder_labels (declared_ids spdx_id pkgs) graph_spdx"
    by blast+
  with pv it d have 3: "placeholder_labels [KStr ''P''] graph_spdx" by auto
  from c s 1 2 3 q show ?thesis by simp
qed

subsection \<open>Ids that are never the null value before the fallback\<close>

lemma to_key_truthy: "to_key v = Inr k \<Longrightarrow> truthy v \<Longrightarrow> k \<noteq> KNone"
  by (cases v) (auto simp: to_key_def)

lemma hk_eq_KNone [simp]: "hk k = KNone \<longleftrightarrow> k = KNone"
  by (cases k) simp_all

lemma KNone_eq_hk [simp]: "KNone = hk k \<longleftrightarrow> k = KNone"
  by (cases k) simp_all

lemma key_in_KNone: "key_in KNone ks \<longleftrightarrow> KNone \<in> set ks"
  by (induction ks) auto

lemma cdx_components_no_None:
  "cdx_components fmt cs s = Inr s' \<Longrightarrow> \<not> key_in KNone (map fst (nodes s)) \<Longrightarrow>
     \<not> key_in KNone (map fst (nodes s'))"
proof (induction cs arbitrary: s)
  case Nil
  then show ?case by simp
next
  case (Cons c cs)
  from Cons.prems(1) obtain cid where
    rest: "(if truthy cid then
             ebind (cx_label fmt c) (\<lambda>l. ebind (to_key cid) (\<lambda>k.
               cdx_components fmt cs (s\<lparr>nodes := dict_set (nodes s) k l\<rparr>)))
           else cdx_components fmt cs s) = Inr s'"
    by (auto simp: ebind_eq_Inr)
  show ?case
  proof (cases "truthy cid")
    case False
    with rest Cons.IH[OF _ Cons.prems(2)] show ?thesis by simp
  next
    case True
    with rest obtain l k where k: "to_key cid = Inr k" and
      r: "cdx_components fmt cs (s\<lparr>nodes := dict_set (nodes s) k l\<rparr>) = Inr s'"
      by (auto simp: ebind_eq_Inr)
    from to_key_truthy[OF k True] Cons.prems(2)
    have "\<not> key_in KNone (map fst (nodes (s\<lparr>nodes := dict_set (nodes s) k l\<rparr>)))"
      by simp
    from Cons.IH[OF r this] show ?thesis .
  qed
qed

lemma cdx_metadata_no_None:
  assumes "cdx_metadata fmt obj s = Inr (s', ro)" and "\<not> key_in KNone (map fst (nodes s))"
  shows "\<not> key_in KNone (map fst (nodes s'))"
proof (cases ro)
  case None
  with assms(1) have "s' = s"
    by (auto simp: cdx_metadata_def ebind_eq_Inr split: if_splits)
  with assms(2) show ?thesis by simp
next
  case (Some r)
  with assms(1) obtain l where
    s': "s' = s\<lparr>nodes := setdefault (nodes s) r l, roots := set_add (roots s) r\<rparr>"
    by (auto simp: cdx_metadata_def ebind_eq_Inr split: if_splits)
  from assms(1) Some have "r \<noteq> KNone"
    by (auto simp: cdx_metadata_def ebind_eq_Inr split: if_splits dest: to_key_truthy)
  with assms(2) show ?thesis by (simp add: s')
qed

lemma cdx_depends_on_no_None:
  "cdx_depends_on r cs s = Inr s' \<Longrightarrow> \<not> key_in KNone (map fst (nodes s)) \<Longrightarrow>
     \<not> key_in KNone (map fst (nodes s'))"
proof (induction cs arbitrary: s)
  case Nil
  then show ?case by simp
next
  case (Cons child cs)
  show ?case
  proof (cases "truthy child")
    case False
    with Cons show ?thesis by simp
  next
    case True
    with Cons.prems(1) obtain c where c: "to_key child = Inr c" and
      r: "cdx_depends_on r cs (s\<lparr>nodes := setdefault (nodes s) c (json_of_key c),
                                  edges := edges_add (edges s) r c\<rparr>) = Inr s'"
      by (auto simp: ebind_eq_Inr)
    from to_key_truthy[OF c True] Cons.prems(2)
    have "\<not> key_in KNone (map fst (nodes (s\<lparr>nodes := setdefault (nodes s) c (json_of_key c),
                                  edges := edges_add (edges s) r c\<rparr>)))"
      by simp
    from Cons.IH[OF r this] show ?thesis .
  qed
qed

lemma cdx_dependencies_no_None:
  "cdx_dependencies ds s = Inr s' \<Longrightarrow> \<not> key_in KNone (map fst (nodes s)) \<Longrightarrow>
     \<not> key_in KNone (map fst (nodes s'))"
proof (induction ds arbitrary: s)
  case Nil
  then show ?case by simp
next
  case (Cons dep ds)
  from Cons.prems(1) obtain ref where
    rest: "(if \<not> truthy ref then cdx_dependencies ds s
            else ebind (to_key ref) (\<lambda>r.
                 ebind (get dep ''dependsOn'') (\<lambda>d.
                 ebind (py_iter (py_or d (JArr []))) (\<lambda>children.
                 ebind (cdx_depends_on r children
                          (s\<lparr>nodes := setdefault (nodes s) r (json_of_key r)\<rparr>)) (\<lambda>s'.
                   cdx_dependencies ds s'))))) = Inr s'"
    by (auto simp: ebind_eq_Inr)
  show ?case
  proof (cases "truthy ref")
    case False
    with rest Cons.IH[OF _ Cons.prems(2)] show ?thesis by simp
  next
    case True
    with rest obtain r children s1 where k: "to_key ref = Inr r" and
      d: "cdx_depends_on r children (s\<lparr>nodes := setdefault (nodes s) r (json_of_key r)\<rparr>) = Inr s1"
      and r: "cdx_dependencies ds s1 = Inr s'"
      by (auto simp: ebind_eq_Inr)
    from to_key_truthy[OF k True] Cons.prems(2)
    have "\<not> key_in KNone (map fst (nodes (s\<lparr>nodes := setdefault (nodes s) r (json_of_key r)\<rparr>)))"
      by simp
    from Cons.IH[OF r cdx_depends_on_no_None[OF d this]] show ?thesis .
  qed
qed

lemma cdx_collect_no_None:
  assumes "cdx_collect fmt obj = Inr (s, ro, comps)"
  shows "\<not> key_in KNone (map fst (nodes s))"
proof -
  from assms obtain s1 s2 deps where
    1: "cdx_components fmt comps SBOM = Inr s1" and
    2: "cdx_metadata fmt obj s1 = Inr (s2, ro)" and
    3: "cdx_dependencies deps s2 = Inr s"
    by (auto simp: cdx_collect_def ebind_eq_Inr)
  have "\<not> key_in KNone (map fst (nodes SBOM))" by (simp add: SBOM_def)
  from cdx_dependencies_no_None[OF 3 cdx_metadata_no_None[OF 2 cdx_components_no_None[OF 1 this]]]
  show ?thesis .
qed

lemma declared_ids_not_None: "KNone \<notin> set (declared_ids idf cs)"
proof (induction cs)
  case Nil
  show ?case by (simp add: declared_ids_def)
next
  case (Cons c cs)
  have "KNone \<notin> set (case idf c of
                        Inr v \<Rightarrow> if truthy v then (case to_key v of Inr k \<Rightarrow> [k] | Inl e \<Rightarrow> []) else []
                      | Inl e \<Rightarrow> [])"
  proof (cases "idf c")
    case (Inl e)
    then show ?thesis by simp
  next
    case (Inr v)
    show ?thesis
    proof (cases "truthy v")
      case False
      with Inr show ?thesis by simp
    next
      case True
      show ?thesis
      proof (cases "to_key v")
        case (Inl e)
        with Inr True show ?thesis by simp
      next
        case k: (Inr k)
        from to_key_truthy[OF k True] Inr True k show ?thesis by simp
      qed
    qed
  qed
  with Cons.IH show ?case
    unfolding declared_ids_Cons_eq set_append by blast
qed

lemma cdx_metadata_root_truthy:
  assumes "cdx_metadata fmt obj s = Inr (s', Some r)"
  shows "r \<noteq> KNone"
  using assms
  by (auto simp: cdx_metadata_def ebind_eq_Inr split: if_splits dest: to_key_truthy)

lemma has_edge_step:
  "has_edge (s\<lparr>nodes := N, edges := edges_add (edges s) a b\<rparr>) a b"
proof -
  have "has_edge (s\<lparr>edges := edges_add (edges s) a b\<rparr>) a b"
    by (simp add: has_edge_edges_add)
  then show ?thesis by (simp add: has_edge_def)
qed

lemma cdx_inline_children_edges:
  "cdx_inline_children src cs s = Inr s' \<Longrightarrow> child \<in> set cs \<Longrightarrow>
     \<exists>a k. to_key src = Inr a \<and> to_key child = Inr k \<and> has_edge s' a k \<and>
           key_in a (map fst (nodes s'))"
proof (induction cs arbitrary: s)
  case Nil
  then show ?case by simp
next
  case (Cons x cs)
  from Cons.prems(1) obtain a c where a: "to_key src = Inr a" and c: "to_key x = Inr c" and
    r: "cdx_inline_children src cs
          (s\<lparr>nodes := setdefault (setdefault (nodes s) a (json_of_key a)) c (json_of_key c),
             edges := edges_add (edges s) a c\<rparr>) = Inr s'"
    by (auto simp: ebind_eq_Inr)
  let ?s1 = "s\<lparr>nodes := setdefault (setdefault (nodes s) a (json_of_key a)) c (json_of_key c),
               edges := edges_add (edges s) a c\<rparr>"
  show ?case
  proof (cases "child = x")
    case True
    have "has_edge ?s1 a c" by (rule has_edge_step)
    moreover have "key_in a (map fst (nodes ?s1))" by simp
    moreover from cdx_inline_children_extends[OF r] have "extends ?s1 s'" by simp
    ultimately have "has_edge s' a c \<and> key_in a (map fst (nodes s'))"
      unfolding extends_def by blast
    with a c True show ?thesis by blast
  next
    case False
    with Cons.prems(2) have "child \<in> set cs" by simp
    from Cons.IH[OF r this] show ?thesis .
  qed
qed

lemma cdx_inline_edges:
  "cdx_inline comps s = Inr s' \<Longrightarrow> c \<in> set comps \<Longrightarrow> cx_id c = Inr src \<Longrightarrow>
   get c ''dependencies'' = Inr (JArr children) \<Longrightarrow> child \<in> set children \<Longrightarrow>
     \<exists>a k. to_key src = Inr a \<and> to_key child = Inr k \<and> has_edge s' a k \<and>
           key_in a (map fst (nodes s'))"
proof (induction comps arbitrary: s)
  case Nil
  then show ?case by simp
next
  case (Cons x comps)
  from Cons.prems(1) obtain xsrc d where xs: "cx_id x = Inr xsrc" and xd: "get x ''dependencies'' = Inr d"
    and rest: "(case py_or d (JArr []) of
              JArr children \<Rightarrow> ebind (cdx_inline_children xsrc children s) (\<lambda>s'. cdx_inline comps s')
            | _ \<Rightarrow> cdx_inline comps s) = Inr s'"
    by (auto simp: ebind_eq_Inr)
  show ?case
  proof (cases "c = x")
    case True
    with Cons.prems(3,4) xs xd have src: "xsrc = src" and d: "d = JArr children" by simp_all
    from Cons.prems(5) have "children \<noteq> []" by auto
    then have "py_or d (JArr []) = JArr children" by (simp add: d py_or_def)
    with rest src obtain s1 where i: "cdx_inline_children src children s = Inr s1"
      and r: "cdx_inline comps s1 = Inr s'"
      by (auto simp: ebind_eq_Inr)
    from cdx_inline_children_edges[OF i Cons.prems(5)] obtain a k where
      ak: "to_key src = Inr a" "to_key child = Inr k" "has_edge s1 a k" "key_in a (map fst (nodes s1))"
      by blast
    from cdx_inline_extends[OF r] have "extends s1 s'" by simp
    with ak(3,4) have "has_edge s' a k \<and> key_in a (map fst (nodes s'))"
      unfolding extends_def by blast
    with ak(1,2) show ?thesis by blast
  next
    case False
    with Cons.prems(2) have mem: "c \<in> set comps" by simp
    show ?thesis
    proof (cases "py_or d (JArr [])")
      case (JArr xchildren)
      with rest obtain s1 where r: "cdx_inline comps s1 = Inr s'"
        by (auto simp: ebind_eq_Inr)
      from Cons.IH[OF r mem Cons.prems(3,4,5)] show ?thesis .
    qed (use rest Cons.IH[OF _ mem Cons.prems(3,4,5)] in auto)
  qed
qed

lemma cdx_roots_has_edge:
  assumes "cdx_roots s ro = Inr g" and "\<forall>r. ro = Some r \<longrightarrow> key_in r (map fst (nodes s))"
    and "has_edge s a b"
  shows "has_edge g a b"
proof (cases ro)
  case None
  with assms(1) have "edges g = edges s"
    by (auto simp: cdx_roots_def Let_def split: if_splits)
  with assms(3) show ?thesis by (simp add: has_edge_def)
next
  case (Some r)
  with assms(2) have "key_in r (map fst (nodes s))" by simp
  from cdx_roots_Some[OF assms(1)[unfolded Some] this] assms(3) show ?thesis by blast
qed

lemma cx_id_absent:
  assumes "map_of kvs ''bom-ref'' = None" and "map_of kvs ''bomRef'' = None"
    and "map_of kvs ''purl'' = None" and "map_of kvs ''name'' = None"
  shows "cx_id (JObj kvs) = Inr JNull"
  using assms by (simp add: cx_id_def get_def get_default_def)

subsection \<open>C10: a component without an id in the inline fallback\<close>

text \<open>
  C10. The inline fallback runs only when the top-level \<^verbatim>\<open>dependencies\<close> section left the
  edge map empty and there are components. In it, a component with none of \<^verbatim>\<open>bom-ref\<close>,
  \<^verbatim>\<open>bomRef\<close>, \<^verbatim>\<open>purl\<close> and \<^verbatim>\<open>name\<close>, and with a non-empty list as its \<^verbatim>\<open>dependencies\<close>
  field, is not skipped: the returned graph has a node whose id is \<^verbatim>\<open>None\<close> (and whose
  label is \<^verbatim>\<open>None\<close>), and an edge from that id to every listed child. The component pass
  does skip such a component, and leaves no node with the id \<^verbatim>\<open>None\<close>.
\<close>

theorem inline_fallback_null_source:
  assumes "cdx_collect fmt obj = Inr (s3, ro, comps)" and "edges s3 = []"
    and "JObj kvs \<in> set comps"
    and "map_of kvs ''bom-ref'' = None" and "map_of kvs ''bomRef'' = None"
    and "map_of kvs ''purl'' = None" and "map_of kvs ''name'' = None"
    and "map_of kvs ''dependencies'' = Some (JArr children)" and "children \<noteq> []"
    and "from_cyclonedx fmt obj = Inr g"
  shows "dict_get (nodes g) KNone = Some JNull \<and>
         (\<forall>child \<in> set children. \<exists>k. to_key child = Inr k \<and> has_edge g KNone k) \<and>
         \<not> key_in KNone (map fst (nodes s3)) \<and>
         (\<forall>cs s0. cdx_components fmt (JObj kvs # cs) s0 = cdx_components fmt cs s0)"
proof -
  have id: "cx_id (JObj kvs) = Inr JNull"
    by (rule cx_id_absent) fact+
  have dep: "get (JObj kvs) ''dependencies'' = Inr (JArr children)"
    using assms(8) by (simp add: get_def get_default_def)
  from assms(3) have ne: "comps \<noteq> []" by auto
  from assms(10) obtain s ro' where b: "cdx_build fmt obj = Inr (s, ro')"
    and g: "cdx_roots s ro' = Inr g"
    by (auto simp: from_cyclonedx_def ebind_eq_Inr)
  from b assms(1,2) ne have i: "cdx_inline comps s3 = Inr s" and ro': "ro' = ro"
    by (auto simp: cdx_build_def ebind_eq_Inr)
  note inv = cdx_build_inv[OF b]
  have edges: "\<exists>k. to_key child = Inr k \<and> has_edge g KNone k" if "child \<in> set children" for child
  proof -
    from cdx_inline_edges[OF i assms(3) id dep that] obtain a k where
      "to_key JNull = Inr a" "to_key child = Inr k" "has_edge s a k" by blast
    then have "to_key child = Inr k" "has_edge s KNone k" by (simp_all add: to_key_def)
    with cdx_roots_has_edge[OF g] inv show ?thesis by blast
  qed
  from assms(9) obtain child where child: "child \<in> set children" by (cases children) auto
  from cdx_inline_edges[OF i assms(3) id dep child]
  have "key_in KNone (map fst (nodes s))" by (auto simp: to_key_def)
  moreover from inv cdx_roots_closed[OF g] have n: "nodes g = nodes s" by simp
  ultimately have "dict_get (nodes g) KNone \<noteq> None" by (simp add: dict_get_None_iff)
  then obtain l where l: "dict_get (nodes g) KNone = Some l" by blast
  then obtain a where a: "(a, l) \<in> set (nodes g)" "hk a = hk KNone"
    by (auto dest: dict_get_SomeD)
  then have a': "a = KNone" by (cases a) simp_all
  from from_cyclonedx_placeholders[OF assms(10)] assms(1)
  have "placeholder_labels
          (declared_ids cx_id comps @ (case ro of None \<Rightarrow> [] | Some r \<Rightarrow> [r])) g" by auto
  with a a' have "key_in KNone (declared_ids cx_id comps @ (case ro of None \<Rightarrow> [] | Some r \<Rightarrow> [r]))
                  \<or> l = JNull"
    by (force simp: placeholder_labels_def)
  moreover have "\<not> key_in KNone (declared_ids cx_id comps @ (case ro of None \<Rightarrow> [] | Some r \<Rightarrow> [r]))"
  proof -
    from assms(1) obtain s1 s2 where "cdx_metadata fmt obj s1 = Inr (s2, ro)"
      by (auto simp: cdx_collect_def ebind_eq_Inr)
    then have "ro \<noteq> Some KNone" using cdx_metadata_root_truthy by blast
    then show ?thesis
      using declared_ids_not_None[of cx_id comps]
      by (auto simp: key_in_KNone split: option.splits)
  qed
  ultimately have label: "dict_get (nodes g) KNone = Some JNull" using l by simp
  have before: "\<not> key_in KNone (map fst (nodes s3))"
    by (rule cdx_collect_no_None) fact
  have skip: "cdx_components fmt (JObj kvs # cs) s0 = cdx_components fmt cs s0" for cs s0
    by (simp add: id)
  from label edges before skip show ?thesis by blast
qed

text \<open>A component with no id and an inline dependency list, and the graph it yields.\<close>

theorem inline_fallback_null_source_witness:
  "from_cyclonedx (\<lambda>v. []) doc_inline = Inr graph_inline \<and>
   dict_get (nodes graph_inline) KNone = Some JNull \<and>
   has_edge graph_inline KNone (KStr ''x'')"
proof -
  have c: "cdx_collect (\<lambda>v. []) doc_inline =
             Inr (SBOM, None, [JObj [(''dependencies'', JArr [JStr ''x''])]])"
    by code_simp
  have e: "edges SBOM = []" by (simp add: SBOM_def)
  have g: "from_cyclonedx (\<lambda>v. []) doc_inline = Inr graph_inline"
    by code_simp
  from inline_fallback_null_source [OF c e _ _ _ _ _ _ _ g,
      of "[(''dependencies'', JArr [JStr ''x''])]" "[JStr ''x'']"]
  have "dict_get (nodes graph_inline) KNone = Some JNull"
    and "\<exists>k. to_key (JStr ''x'') = Inr k \<and> has_edge graph_inline KNone k"
    by simp_all
  with g show ?thesis by (auto simp: to_key_def)
qed

lemma add_edges_Nil [simp]: "add_edges [] E = E"
  by (simp add: add_edges_def)

lemma add_edges_Cons [simp]: "add_edges ((a, b) # ps) E = add_edges ps (edges_add E a b)"
  by (simp add: add_edges_def)

lemma add_edges_append [simp]: "add_edges (ps @ qs) E = add_edges qs (add_edges ps E)"
  by (simp add: add_edges_def)

lemma pairs_of_append [simp]: "pairs_of (E @ F) = pairs_of E @ pairs_of F"
  by (induction E) auto

lemma pairs_dict_set:
  "dict_get E a = Some cs \<Longrightarrow>
     set (pairs_of (dict_set E a (set_add cs b))) = insert (hk a, hk b) (set (pairs_of E))"
proof (induction E)
  case Nil
  then show ?case by simp
next
  case (Cons kv E)
  obtain k w where kv: "kv = (k, w)" by (cases kv)
  show ?case
  proof (cases "hk k = hk a")
    case True
    with Cons.prems kv have "w = cs" by simp
    with True kv show ?thesis by (auto simp: set_add_def key_in_def)
  next
    case False
    with Cons kv show ?thesis by auto
  qed
qed

lemma pairs_edges_add:
  "set (pairs_of (edges_add E a b)) = insert (hk a, hk b) (set (pairs_of E))"
proof (cases "dict_get E a")
  case None
  then show ?thesis by (simp add: edges_add_eq)
next
  case (Some cs)
  with pairs_dict_set[OF Some] show ?thesis by (simp add: edges_add_eq)
qed

lemma pairs_add_edges:
  "set (pairs_of (add_edges ps E)) = set (pairs_of E) \<union> set (map (\<lambda>p. (hk (fst p), hk (snd p))) ps)"
proof (induction ps arbitrary: E)
  case Nil
  show ?case by simp
next
  case (Cons p ps)
  obtain a b where p: "p = (a, b)" by (cases p)
  from Cons.IH[of "edges_add E a b"] show ?case
    by (simp add: p pairs_edges_add)
qed

lemma edges_wf_add_edges: "edges_wf E \<Longrightarrow> edges_wf (add_edges ps E)"
proof (induction ps arbitrary: E)
  case Nil
  then show ?case by simp
next
  case (Cons p ps)
  obtain a b where p: "p = (a, b)" by (cases p)
  from Cons.IH[OF edges_wf_edges_add[OF Cons.prems, of a b]] show ?case by (simp add: p)
qed

lemma fst_pairs_of: "p \<in> set (pairs_of E) \<Longrightarrow> fst p \<in> set (map (\<lambda>kv. hk (fst kv)) E)"
  by (induction E rule: pairs_of.induct) auto

lemma distinct_pairs_of: "edges_wf E \<Longrightarrow> distinct (pairs_of E)"
proof (induction E rule: pairs_of.induct)
  case 1
  show ?case by simp
next
  case (2 a cs E)
  from "2.prems" have wf: "edges_wf E" and cs: "distinct (map hk cs)"
    and a: "hk a \<notin> set (map (\<lambda>kv. hk (fst kv)) E)"
    by (auto simp: edges_wf_def)
  have "distinct (map (\<lambda>c. (hk a, hk c)) cs)"
    using cs by (simp add: distinct_map inj_on_def)
  moreover have "set (map (\<lambda>c. (hk a, hk c)) cs) \<inter> set (pairs_of E) = {}"
    using a fst_pairs_of[of _ E] by fastforce
  ultimately show ?case using "2.IH"[OF wf] by simp
qed

lemma length_pairs_of: "length (pairs_of E) = sum_list (map (\<lambda>kv. length (snd kv)) E)"
  by (induction E rule: pairs_of.induct) auto

lemma edge_count_card:
  assumes "edges_wf (edges s)"
  shows "edge_count s = card (set (pairs_of (edges s)))"
  using distinct_card[OF distinct_pairs_of[OF assms]]
  by (simp add: edge_count_def length_pairs_of)

lemma edge_count_add_edges:
  assumes "edges s = add_edges ps []"
  shows "edge_count s = distinct_edges ps"
proof -
  have wf: "edges_wf (edges s)"
    unfolding assms by (rule edges_wf_add_edges) simp
  have "set (pairs_of (edges s)) = set (map (\<lambda>p. (hk (fst p), hk (snd p))) ps)"
    unfolding assms by (simp add: pairs_add_edges)
  then show ?thesis
    unfolding edge_count_card[OF wf] distinct_edges_def
    by (simp only: length_remdups_card_conv)
qed

lemma add_edges_not_Nil: "ps \<noteq> [] \<Longrightarrow> add_edges ps E \<noteq> []"
proof -
  assume "ps \<noteq> []"
  then have "set (map (\<lambda>p. (hk (fst p), hk (snd p))) ps) \<noteq> {}" by simp
  then have "set (pairs_of (add_edges ps E)) \<noteq> {}" by (simp add: pairs_add_edges)
  then show ?thesis by auto
qed

subsection \<open>The edges that the passes of the CycloneDX normalizer add\<close>

lemma add_edges_map_Cons:
  "add_edges (map (Pair r) (k # ks)) E = add_edges (map (Pair r) ks) (edges_add E r k)"
  by simp

lemma cdx_depends_on_edges:
  "cdx_depends_on r cs s = Inr s' \<Longrightarrow>
     edges s' = add_edges (map (Pair r) (kept_children cs)) (edges s)"
proof (induction cs arbitrary: s)
  case Nil
  then show ?case by simp
next
  case (Cons child cs)
  show ?case
  proof (cases "truthy child")
    case False
    with Cons show ?thesis by simp
  next
    case True
    with Cons.prems obtain c where c: "to_key child = Inr c" and
      r: "cdx_depends_on r cs (s\<lparr>nodes := setdefault (nodes s) c (json_of_key c),
                                  edges := edges_add (edges s) r c\<rparr>) = Inr s'"
      by (auto simp: ebind_eq_Inr)
    from Cons.IH[OF r] True c show ?thesis by simp
  qed
qed

lemma cdx_dependencies_edges:
  "cdx_dependencies ds s = Inr s' \<Longrightarrow> edges s' = add_edges (listed_edges ds) (edges s)"
proof (induction ds arbitrary: s)
  case Nil
  then show ?case by simp
next
  case (Cons dep ds)
  from Cons.prems obtain ref where ref: "get dep ''ref'' = Inr ref" and
    rest: "(if \<not> truthy ref then cdx_dependencies ds s
            else ebind (to_key ref) (\<lambda>r.
                 ebind (get dep ''dependsOn'') (\<lambda>d.
                 ebind (py_iter (py_or d (JArr []))) (\<lambda>children.
                 ebind (cdx_depends_on r children
                          (s\<lparr>nodes := setdefault (nodes s) r (json_of_key r)\<rparr>)) (\<lambda>s'.
                   cdx_dependencies ds s'))))) = Inr s'"
    by (auto simp: ebind_eq_Inr)
  show ?case
  proof (cases "truthy ref")
    case False
    with rest have "cdx_dependencies ds s = Inr s'" by simp
    from Cons.IH[OF this] ref False show ?thesis
      by (simp add: dependency_entry_edges_def)
  next
    case True
    with rest obtain r d children s1 where k: "to_key ref = Inr r"
      and d: "get dep ''dependsOn'' = Inr d"
      and it: "py_iter (py_or d (JArr [])) = Inr children"
      and c: "cdx_depends_on r children (s\<lparr>nodes := setdefault (nodes s) r (json_of_key r)\<rparr>) = Inr s1"
      and r: "cdx_dependencies ds s1 = Inr s'"
      by (auto simp: ebind_eq_Inr)
    have e: "dependency_entry_edges dep = map (Pair r) (kept_children children)"
      using ref True k d it by (simp add: dependency_entry_edges_def)
    from cdx_depends_on_edges[OF c] have "edges s1 = add_edges (map (Pair r) (kept_children children)) (edges s)"
      by simp
    with Cons.IH[OF r] e show ?thesis by simp
  qed
qed

lemma cdx_inline_children_edges_eq:
  "cdx_inline_children src cs s = Inr s' \<Longrightarrow>
     edges s' = add_edges (case to_key src of Inr a \<Rightarrow> map (Pair a) (all_keys cs) | Inl e \<Rightarrow> [])
                  (edges s)"
proof (induction cs arbitrary: s)
  case Nil
  then show ?case by (simp split: sum.splits)
next
  case (Cons child cs)
  from Cons.prems obtain a c where a: "to_key src = Inr a" and c: "to_key child = Inr c" and
    r: "cdx_inline_children src cs
          (s\<lparr>nodes := setdefault (setdefault (nodes s) a (json_of_key a)) c (json_of_key c),
             edges := edges_add (edges s) a c\<rparr>) = Inr s'"
    by (auto simp: ebind_eq_Inr)
  from Cons.IH[OF r] a c show ?case by simp
qed

lemma cdx_inline_edges_eq:
  "cdx_inline comps s = Inr s' \<Longrightarrow> edges s' = add_edges (inline_edges comps) (edges s)"
proof (induction comps arbitrary: s)
  case Nil
  then show ?case by simp
next
  case (Cons c comps)
  from Cons.prems obtain src d where src: "cx_id c = Inr src" and d: "get c ''dependencies'' = Inr d"
    and rest: "(case py_or d (JArr []) of
              JArr children \<Rightarrow> ebind (cdx_inline_children src children s) (\<lambda>s'. cdx_inline comps s')
            | _ \<Rightarrow> cdx_inline comps s) = Inr s'"
    by (auto simp: ebind_eq_Inr)
  show ?case
  proof (cases "py_or d (JArr [])")
    case (JArr children)
    with rest obtain s1 where i: "cdx_inline_children src children s = Inr s1"
      and r: "cdx_inline comps s1 = Inr s'"
      by (auto simp: ebind_eq_Inr)
    have "inline_entry_edges c =
            (case to_key src of Inr a \<Rightarrow> map (Pair a) (all_keys children) | Inl e \<Rightarrow> [])"
      using src d JArr by (simp add: inline_entry_edges_def)
    with cdx_inline_children_edges_eq[OF i] Cons.IH[OF r] show ?thesis by simp
  next
    case JNull
    with rest src d Cons.IH[of s] show ?thesis by (simp add: inline_entry_edges_def)
  next
    case (JBool x)
    with rest src d Cons.IH[of s] show ?thesis by (simp add: inline_entry_edges_def)
  next
    case (JInt x)
    with rest src d Cons.IH[of s] show ?thesis by (simp add: inline_entry_edges_def)
  next
    case (JStr x)
    with rest src d Cons.IH[of s] show ?thesis by (simp add: inline_entry_edges_def)
  next
    case (JObj x)
    with rest src d Cons.IH[of s] show ?thesis by (simp add: inline_entry_edges_def)
  qed
qed

lemma extends_knows:
  "extends s s' \<Longrightarrow> key_in k (map fst (nodes s)) \<Longrightarrow> key_in k (map fst (nodes s'))"
  by (simp add: extends_def)

lemma cdx_components_declared:
  "cdx_components fmt cs s = Inr s' \<Longrightarrow> k \<in> set (declared_ids cx_id cs) \<Longrightarrow>
     key_in k (map fst (nodes s'))"
proof (induction cs arbitrary: s)
  case Nil
  then show ?case by (simp add: declared_ids_def)
next
  case (Cons c cs)
  from Cons.prems(1) obtain cid where cid: "cx_id c = Inr cid" and
    rest: "(if truthy cid then
             ebind (cx_label fmt c) (\<lambda>l. ebind (to_key cid) (\<lambda>k.
               cdx_components fmt cs (s\<lparr>nodes := dict_set (nodes s) k l\<rparr>)))
           else cdx_components fmt cs s) = Inr s'"
    by (auto simp: ebind_eq_Inr)
  show ?case
  proof (cases "truthy cid")
    case False
    with cid Cons.prems(2) have "k \<in> set (declared_ids cx_id cs)"
      unfolding declared_ids_Cons_eq by simp
    with rest False Cons.IH show ?thesis by simp
  next
    case True
    with rest obtain l k' where k': "to_key cid = Inr k'" and
      r: "cdx_components fmt cs (s\<lparr>nodes := dict_set (nodes s) k' l\<rparr>) = Inr s'"
      by (auto simp: ebind_eq_Inr)
    from cid True k' Cons.prems(2) have "k = k' \<or> k \<in> set (declared_ids cx_id cs)"
      unfolding declared_ids_Cons_eq by simp
    then show ?thesis
    proof
      assume kk: "k = k'"
      have 1: "key_in k' (map fst (nodes (s\<lparr>nodes := dict_set (nodes s) k' l\<rparr>)))" by simp
      from cdx_components_extends[OF r]
      have 2: "extends (s\<lparr>nodes := dict_set (nodes s) k' l\<rparr>) s'" by simp
      from extends_knows[OF 2 1] kk show ?thesis by simp
    next
      assume "k \<in> set (declared_ids cx_id cs)"
      from Cons.IH[OF r this] show ?thesis .
    qed
  qed
qed

lemma distinct_ids_le:
  assumes "\<And>k. k \<in> set D \<Longrightarrow> key_in k (map fst N)"
  shows "distinct_ids D \<le> length N"
proof -
  have "hk ` set D \<subseteq> hk ` set (map fst N)"
  proof
    fix x assume "x \<in> hk ` set D"
    then obtain k where "k \<in> set D" "x = hk k" by blast
    with assms[of k] show "x \<in> hk ` set (map fst N)"
      unfolding key_in_def set_map by simp
  qed
  then have "card (hk ` set D) \<le> card (hk ` set (map fst N))"
    by (intro card_mono) auto
  also have "\<dots> \<le> card (set (map fst N))" by (rule card_image_le) simp
  also have "\<dots> \<le> length (map fst N)" by (rule card_length)
  finally show ?thesis
    by (simp add: distinct_ids_def length_remdups_card_conv)
qed

lemma py_set_distinct:
  "(\<And>x. x \<in> set xs \<Longrightarrow> \<not> key_in x ks) \<Longrightarrow> distinct (map hk xs) \<Longrightarrow>
     set_update ks xs = ks @ xs"
proof (induction xs arbitrary: ks)
  case Nil
  show ?case by (simp add: set_update_def)
next
  case (Cons x xs)
  from Cons.prems have x: "\<not> key_in x ks" by simp
  have "set_update ks (x # xs) = set_update (ks @ [x]) xs"
    using x by (simp add: set_update_def set_add_def)
  also have "\<dots> = (ks @ [x]) @ xs"
  proof (rule Cons.IH)
    fix y assume y: "y \<in> set xs"
    from Cons.prems(2) have "hk x \<notin> hk ` set xs" by simp
    with y have "hk y \<noteq> hk x" by (metis imageI)
    moreover from y Cons.prems(1) have "\<not> key_in y ks" by simp
    ultimately show "\<not> key_in y (ks @ [x])" by simp
  next
    from Cons.prems(2) show "distinct (map hk xs)" by simp
  qed
  finally show ?case by simp
qed

lemma length_py_set: "distinct (map hk xs) \<Longrightarrow> length (py_set xs) = length xs"
  using py_set_distinct[of xs "[]"] by (simp add: py_set_def)

lemma length_py_sorted: "py_sorted ks = Inr ys \<Longrightarrow> length ys = length ks"
  by (auto simp: py_sorted_def split: if_splits)

lemma distinct_py_sorted:
  assumes "py_sorted ks = Inr ys" and "distinct (map hk ks)"
  shows "distinct (map hk ys)"
proof -
  have "card (set (map hk ys)) = card (set (map hk ks))"
    using set_py_sorted[OF assms(1)] by simp
  also have "\<dots> = length (map hk ks)" using assms(2) by (rule distinct_card)
  also have "\<dots> = length (map hk ys)" using length_py_sorted[OF assms(1)] by simp
  finally show ?thesis by (rule card_distinct)
qed

lemma distinct_top_level: "edges_wf (edges s) \<Longrightarrow> distinct (map hk (top_level s))"
proof -
  assume "edges_wf (edges s)"
  then have "distinct (map hk (map fst (edges s)))" by (simp add: edges_wf_def comp_def)
  then show ?thesis unfolding top_level_def by (rule distinct_map_filter)
qed

lemma dict_set_new: "\<not> key_in k (map fst d) \<Longrightarrow> dict_set d k v = d @ [(k, v)]"
  by (induction d) auto

lemma cdx_roots_edge_count:
  assumes "cdx_roots s ro = Inr g" and wf: "edges_wf (edges s)"
  shows "edge_count g =
           edge_count s +
           (case ro of None \<Rightarrow> 0
            | Some r \<Rightarrow> if key_in r (map fst (nodes s)) \<and> \<not> key_in r (map fst (edges s))
                        then length (top_level s) else 0)"
proof (cases ro)
  case None
  with assms(1) have "edges g = edges s"
    by (auto simp: cdx_roots_def Let_def split: if_splits)
  with None show ?thesis by (simp add: edge_count_def)
next
  case (Some r)
  show ?thesis
  proof (cases "key_in r (map fst (nodes s)) \<and> \<not> key_in r (map fst (edges s))")
    case False
    with assms(1) Some have "edges g = edges s"
      by (auto simp: cdx_roots_def Let_def split: if_splits)
    then have "edge_count g = edge_count s" by (simp add: edge_count_def)
    then show ?thesis unfolding Some option.case if_not_P[OF False] by simp
  next
    case True
    with assms(1) Some obtain tl where tl: "py_sorted (top_level s) = Inr tl"
      and g: "edges g = (if tl \<noteq> [] then dict_set (edges s) r (py_set tl) else edges s)"
      by (auto simp: cdx_roots_def Let_def ebind_eq_Inr split: if_splits)
    have len: "length (py_set tl) = length (top_level s)"
      using length_py_set[OF distinct_py_sorted[OF tl distinct_top_level[OF wf]]]
        length_py_sorted[OF tl] by simp
    show ?thesis
    proof (cases "tl = []")
      case True
      with length_py_sorted[OF tl] have "top_level s = []" by simp
      moreover from g True have "edge_count g = edge_count s" by (simp add: edge_count_def)
      ultimately show ?thesis unfolding Some option.case by simp
    next
      case False
      with g True have "edges g = edges s @ [(r, py_set tl)]" by (simp add: dict_set_new)
      with len have "edge_count g = edge_count s + length (top_level s)"
        by (simp add: edge_count_def)
      then show ?thesis unfolding Some option.case if_P[OF True] .
    qed
  qed
qed

lemma cdx_build_edges:
  assumes "cdx_build fmt obj = Inr (s, ro)"
  shows "edges s = add_edges (read_edges obj) [] \<and>
         (\<forall>k \<in> set (declared_ids cx_id (component_entries obj)). key_in k (map fst (nodes s)))"
proof -
  from assms obtain s3 comps where c: "cdx_collect fmt obj = Inr (s3, ro, comps)"
    and rest: "(if edges s3 = [] \<and> comps \<noteq> []
                then ebind (cdx_inline comps s3) (\<lambda>s4. Inr (s4, ro))
                else Inr (s3, ro)) = Inr (s, ro)"
    by (auto simp: cdx_build_def ebind_eq_Inr split: if_splits)
  from c obtain cv s1 s2 dv deps where
    cv: "get_default obj ''components'' (JArr []) = Inr cv" and
    ci: "py_iter (py_or cv (JArr [])) = Inr comps" and
    1: "cdx_components fmt comps SBOM = Inr s1" and
    2: "cdx_metadata fmt obj s1 = Inr (s2, ro)" and
    dv: "get_default obj ''dependencies'' (JArr []) = Inr dv" and
    di: "py_iter (py_or dv (JArr [])) = Inr deps" and
    3: "cdx_dependencies deps s2 = Inr s3"
    by (auto simp: cdx_collect_def ebind_eq_Inr)
  have comps: "component_entries obj = comps" by (simp add: component_entries_def cv ci)
  have deps: "dependency_entries obj = deps" by (simp add: dependency_entries_def dv di)
  from cdx_components_extends[OF 1] cdx_metadata_extends[OF 2]
  have e2: "edges s2 = []" and x12: "extends s1 s2" by (simp_all add: SBOM_def)
  from cdx_dependencies_edges[OF 3] e2 have e3: "edges s3 = add_edges (listed_edges deps) []"
    by simp
  from cdx_dependencies_extends[OF 3] have x23: "extends s2 s3" by simp
  have empty: "edges s3 = [] \<longleftrightarrow> listed_edges deps = []"
    using e3 add_edges_not_Nil[of "listed_edges deps" "[]"] by auto
  have known3: "key_in k (map fst (nodes s3))" if "k \<in> set (declared_ids cx_id comps)" for k
    using extends_knows[OF x23 extends_knows[OF x12 cdx_components_declared[OF 1 that]]] .
  show ?thesis
  proof (cases "edges s3 = [] \<and> comps \<noteq> []")
    case True
    with rest have i: "cdx_inline comps s3 = Inr s" by (auto simp: ebind_eq_Inr)
    from cdx_inline_edges_eq[OF i] True have "edges s = add_edges (inline_edges comps) []"
      by simp
    moreover from True empty have "read_edges obj = inline_edges comps"
      by (simp add: read_edges_def comps deps)
    moreover from cdx_inline_extends[OF i] have x: "extends s3 s" by simp
    moreover have "key_in k (map fst (nodes s))" if "k \<in> set (declared_ids cx_id comps)" for k
      using extends_knows[OF x known3[OF that]] .
    ultimately show ?thesis
      using comps by simp
  next
    case False
    with rest have "s = s3" by simp
    moreover from False empty have "read_edges obj = listed_edges deps"
      by (auto simp: read_edges_def comps deps)
    ultimately show ?thesis
      using e3 known3 comps by simp
  qed
qed

subsection \<open>C8: how many nodes and edges a CycloneDX document yields\<close>

text \<open>
  C8, as amended. For every CycloneDX input that normalization accepts, the graph has at
  least as many nodes as the components have distinct ids, and its number of edges is
  the number of distinct edges read from the document (the pairs of the top-level
  \<^verbatim>\<open>dependencies\<close> section, duplicates counted once; or, when that section yields none
  and there are components, the pairs of the components' own \<^verbatim>\<open>dependencies\<close> lists), plus,
  when a declared root has no outgoing edge of its own, one synthesized edge for every
  edge source that no edge targets. It is exactly the number of distinct edges read when
  no root is declared or the declared root has edges of its own.
\<close>

theorem cyclonedx_counts:
  assumes "from_cyclonedx fmt obj = Inr g"
  shows "distinct_ids (declared_ids cx_id (component_entries obj)) \<le> length (nodes g) \<and>
         (\<exists>s ro. cdx_build fmt obj = Inr (s, ro) \<and>
            edge_count g =
              distinct_edges (read_edges obj) +
              (case ro of None \<Rightarrow> 0
               | Some r \<Rightarrow> if key_in r (map fst (edges s)) then 0 else length (top_level s)))"
proof -
  from assms obtain s ro where b: "cdx_build fmt obj = Inr (s, ro)"
    and g: "cdx_roots s ro = Inr g"
    by (auto simp: from_cyclonedx_def ebind_eq_Inr)
  note inv = cdx_build_inv[OF b]
  from cdx_build_edges[OF b] have e: "edges s = add_edges (read_edges obj) []"
    and k: "\<And>k. k \<in> set (declared_ids cx_id (component_entries obj)) \<Longrightarrow> key_in k (map fst (nodes s))"
    by simp_all
  from inv cdx_roots_closed[OF g] have n: "nodes g = nodes s" by simp
  from distinct_ids_le[of "declared_ids cx_id (component_entries obj)" "nodes s"] k n
  have nodes: "distinct_ids (declared_ids cx_id (component_entries obj)) \<le> length (nodes g)"
    by simp
  from inv have wf: "edges_wf (edges s)" by simp
  have "(case ro of None \<Rightarrow> 0
         | Some r \<Rightarrow> if key_in r (map fst (nodes s)) \<and> \<not> key_in r (map fst (edges s))
                     then length (top_level s) else 0) =
        (case ro of None \<Rightarrow> 0
         | Some r \<Rightarrow> if key_in r (map fst (edges s)) then 0 else length (top_level s))"
    using inv by (cases ro) auto
  with cdx_roots_edge_count[OF g wf] edge_count_add_edges[OF e]
  have "edge_count g =
          distinct_edges (read_edges obj) +
          (case ro of None \<Rightarrow> 0
           | Some r \<Rightarrow> if key_in r (map fst (edges s)) then 0 else length (top_level s))"
    by simp
  with nodes b show ?thesis by blast
qed

theorem cyclonedx_counts_witness:
  "from_cyclonedx (\<lambda>v. []) doc_cdx = Inr graph_cdx \<and>
   distinct_ids (declared_ids cx_id (component_entries doc_cdx)) = 2 \<and>
   2 \<le> length (nodes graph_cdx) \<and>
   distinct_edges (read_edges doc_cdx) = 1 \<and>
   edge_count graph_cdx = 1"
proof -
  have g: "from_cyclonedx (\<lambda>v. []) doc_cdx = Inr graph_cdx"
    by code_simp
  have d: "distinct_ids (declared_ids cx_id (component_entries doc_cdx)) = 2"
    by code_simp
  have m: "distinct_edges (read_edges doc_cdx) = 1"
    by code_simp
  have b: "cdx_build (\<lambda>v. []) doc_cdx =
             Inr (\<lparr>nodes = [(KStr ''a'', JStr ''component''), (KStr ''b'', JStr ''component'')],
                   edges = [(KStr ''a'', [KStr ''b''])], roots = []\<rparr>, None)"
    by code_simp
  from cyclonedx_counts [OF g] d m b
  have "2 \<le> length (nodes graph_cdx)" and "edge_count graph_cdx = 1"
    by auto
  with g d m show ?thesis by simp
qed

text \<open>
  The claim as stated fails on Scenario B of the specification: two components and one
  listed edge, but the graph has two edges, the second synthesized under the declared
  root. It also fails on two components that share a name and have no \<^verbatim>\<open>bom-ref\<close>: they
  are one node.
\<close>

theorem cyclonedx_counts_counterexample:
  "from_cyclonedx (\<lambda>v. []) doc_root = Inr graph_root \<and>
   length (component_entries doc_root) = 2 \<and>
   distinct_edges (listed_edges (dependency_entries doc_root)) = 1 \<and>
   edge_count graph_root = 2 \<and>
   from_cyclonedx (\<lambda>v. []) doc_same_name = Inr graph_same_name \<and>
   length (component_entries doc_same_name) = 2 \<and>
   length (nodes graph_same_name) = 1"
  by code_simp

text \<open>Graphs with cycles: Scenario E of the specification (\<open>a \<rightarrow> b \<rightarrow> a\<close>), a self-loop,
  and a cycle \<open>b \<rightarrow> c \<rightarrow> b\<close> below the root \<open>a\<close>; and the default options of the ASCII
  renderer.\<close>

subsection \<open>Where the recursion stops\<close>

lemma make_node_cycle:
  "key_in node seen \<Longrightarrow> label_of g node = JStr l \<Longrightarrow>
     make_node g node seen = Inr (Tree (JStr (l @ cycle_mark)) [])"
  by (simp add: make_node.simps)

lemma render_cycle:
  "key_in node seen \<Longrightarrow> node_line fmt g (show_ids opts) node prefix depth = Inr line \<Longrightarrow>
     render fmt g opts node prefix seen is_last depth V =
       (if at_limit (max_depth opts) depth then [line]
        else [line, prefix @ indent is_last @ ''+-- (cycle)''], Inr V)"
  by (simp add: render.simps)

subsection \<open>C3: the traversals terminate\<close>

text \<open>
  C3, as amended. For every graph, cyclic or not, a self-loop included, the recursion of
  the ASCII renderer (\<^verbatim>\<open>render\<close> with its loop over the children) and of the
  tree-structure builder (\<^verbatim>\<open>make_node\<close>) terminates on every argument. When the
  tree-structure builder reaches a node id that is on the ancestor path, it returns a leaf
  with the cycle marker. When \<^verbatim>\<open>render\<close> is entered for a node id that is on the ancestor
  path, it yields the node's line and the \<^verbatim>\<open>(cycle)\<close> line, or at the depth limit the
  node's line alone, and in both cases nothing below it.
\<close>

theorem traversals_terminate:
  "render_render_children_dom x \<and> make_node_make_nodes_dom y \<and>
   (key_in node seen \<longrightarrow> label_of g node = JStr l \<longrightarrow>
      make_node g node seen = Inr (Tree (JStr (l @ cycle_mark)) [])) \<and>
   (key_in node seen \<longrightarrow> node_line fmt g (show_ids opts) node prefix depth = Inr line \<longrightarrow>
      render fmt g opts node prefix seen is_last depth V =
        (if at_limit (max_depth opts) depth then [line]
         else [line, prefix @ indent is_last @ ''+-- (cycle)''], Inr V))"
  using render_dom_total make_node_dom_total
  by (simp add: make_node_cycle render_cycle)

theorem traversals_terminate_witness:
  "make_node graph_cycle (KStr ''a'') [KStr ''a'', KStr ''b''] =
     Inr (Tree (JStr (''a'' @ cycle_mark)) []) \<and>
   render (\<lambda>v. []) graph_cycle plain (KStr ''a'') ''        '' [KStr ''a'', KStr ''b''] True 2 [KStr ''b'', KStr ''a''] =
     ([''        +-- a'', ''            +-- (cycle)''], Inr [KStr ''b'', KStr ''a'']) \<and>
   to_d3_tree graph_cycle [KStr ''a''] =
     Inr (Tree (JStr ''a'') [Tree (JStr ''b'') [Tree (JStr (''a'' @ cycle_mark)) []]]) \<and>
   to_d3_tree graph_self_loop [KStr ''a''] =
     Inr (Tree (JStr ''a'') [Tree (JStr (''a'' @ cycle_mark)) []]) \<and>
   ascii_trees (\<lambda>v. []) graph_cycle [KStr ''a''] plain =
     ([''a'', ''    +-- b'', ''        +-- a'', ''            +-- (cycle)'', []], None)"
proof -
  have k: "key_in (KStr ''a'') [KStr ''a'', KStr ''b'']" by simp
  have l: "label_of graph_cycle (KStr ''a'') = JStr ''a''" by code_simp
  have n: "node_line (\<lambda>v. []) graph_cycle (show_ids plain) (KStr ''a'') ''        '' 2 = Inr ''        +-- a''"
    by code_simp
  have a: "\<not> at_limit (max_depth plain) 2" by (simp add: plain_def at_limit_def)
  have i: "''        '' @ indent True @ ''+-- (cycle)'' = ''            +-- (cycle)''"
    by (simp add: indent_def)
  from traversals_terminate
    [of _ _ "KStr ''a''" "[KStr ''a'', KStr ''b'']" graph_cycle "''a''" "\<lambda>v. []" plain "''        ''" 2
        "''        +-- a''" True "[KStr ''b'', KStr ''a'']"]
    k l n a i
  have "make_node graph_cycle (KStr ''a'') [KStr ''a'', KStr ''b''] =
          Inr (Tree (JStr (''a'' @ cycle_mark)) [])"
    and "render (\<lambda>v. []) graph_cycle plain (KStr ''a'') ''        '' [KStr ''a'', KStr ''b''] True 2 [KStr ''b'', KStr ''a''] =
          ([''        +-- a'', ''            +-- (cycle)''], Inr [KStr ''b'', KStr ''a''])"
    by simp_all
  moreover have "to_d3_tree graph_cycle [KStr ''a''] =
     Inr (Tree (JStr ''a'') [Tree (JStr ''b'') [Tree (JStr (''a'' @ cycle_mark)) []]])"
    by code_simp
  moreover have "to_d3_tree graph_self_loop [KStr ''a''] =
     Inr (Tree (JStr ''a'') [Tree (JStr (''a'' @ cycle_mark)) []])"
    by code_simp
  moreover have "ascii_trees (\<lambda>v. []) graph_cycle [KStr ''a''] plain =
     ([''a'', ''    +-- b'', ''        +-- a'', ''            +-- (cycle)'', []], None)"
    by code_simp
  ultimately show ?thesis by simp
qed

text \<open>
  The claim as stated fails in the ASCII renderer. With a depth limit of 1 the self-loop
  \<open>a \<rightarrow> a\<close> is rendered as two lines and no cycle marker. Without full duplication the
  cycle \<open>b \<rightarrow> c \<rightarrow> b\<close> under the root \<open>a\<close> ends in a \<^verbatim>\<open>(seen)\<close> line: the child \<open>b\<close> is
  in the global visited set, so \<^verbatim>\<open>render\<close> is not entered for it.
\<close>

theorem cycle_marker_counterexample:
  "ascii_trees (\<lambda>v. []) graph_self_loop [KStr ''a''] (plain\<lparr>max_depth := Some 1\<rparr>) =
     ([''a'', ''    +-- a'', []], None) \<and>
   ascii_trees (\<lambda>v. []) graph_inner_cycle [KStr ''a''] plain =
     ([''a'', ''    +-- b'', ''        +-- c'', ''            +-- b  (seen)'', []], None)"
  by code_simp

text \<open>Two children whose labels are equal when lowercased, with the edge set yielding them
  in one order and in the other; and a graph whose label order is not its id order.\<close>

subsection \<open>The order of the children\<close>








subsection \<open>C4: the order in which children and roots are visited\<close>




subsection \<open>The global visited set\<close>

lemma render_children_seen:
  "\<not> include_dupes opts \<Longrightarrow> key_in child V \<Longrightarrow> label_of g child = JStr l \<Longrightarrow>
     render_children fmt g opts (child # rest) next_prefix seen depth V =
       (case render_children fmt g opts rest next_prefix seen depth V of
          (ls, res) \<Rightarrow> ((next_prefix @ ''+-- '' @ l @ ''  (seen)'') # ls, res))"
  by simp

lemma render_children_enter:
  "include_dupes opts \<or> \<not> key_in child V \<Longrightarrow>
     render_children fmt g opts (child # rest) next_prefix seen depth V =
       (case render fmt g opts child next_prefix seen (rest = []) depth (set_add V child) of
          (ls, Inl e) \<Rightarrow> (ls, Inl e)
        | (ls, Inr V') \<Rightarrow>
            (case render_children fmt g opts rest next_prefix seen depth V' of
               (ls', res) \<Rightarrow> (ls @ ls', res)))"
  by auto

lemma visited_grows:
  "render fmt g opts node prefix seen is_last depth V = (ls, Inr V') \<Longrightarrow>
     key_in k V \<Longrightarrow> key_in k V'"
  "render_children fmt g opts cs next_prefix seen depth V = (ls, Inr V') \<Longrightarrow>
     key_in k V \<or> k \<in> set cs \<Longrightarrow> key_in k V'"
proof (induction fmt g opts node prefix seen is_last depth V
         and fmt g opts cs next_prefix seen depth V
       arbitrary: ls V' and ls V' rule: render_render_children.induct)
  case (1 fmt g opts node prefix seen is_last depth V)
  from "1.prems"(1) obtain line where line: "node_line fmt g (show_ids opts) node prefix depth = Inr line"
    by (cases "node_line fmt g (show_ids opts) node prefix depth") (auto simp: render.simps)
  show ?case
  proof (cases "at_limit (max_depth opts) depth \<or> key_in node seen")
    case True
    with "1.prems" line show ?thesis by (auto simp: render.simps split: if_splits)
  next
    case False
    with "1.prems"(1) line obtain kids where kids: "sorted_by_label g (children_of g node) = Inr kids"
      by (cases "sorted_by_label g (children_of g node)") (auto simp: render.simps)
    with "1.prems"(1) line False obtain ls' where
      "render_children fmt g opts kids (prefix @ indent is_last) (set_add seen node) (depth + 1) V
         = (ls', Inr V')"
      by (auto simp: render.simps split: prod.splits)
    from "1.IH"[OF line _ _ kids this] False "1.prems"(2) show ?thesis by auto
  qed
next
  case (2 fmt g opts next_prefix seen depth V)
  then show ?case by simp
next
  case (3 fmt g opts child rest next_prefix seen depth V)
  show ?case
  proof (cases "\<not> include_dupes opts \<and> key_in child V")
    case True
    with "3.prems"(1) obtain l ls' where l: "label_of g child = JStr l"
      and r: "render_children fmt g opts rest next_prefix seen depth V = (ls', Inr V')"
      by (auto split: json.splits prod.splits)
    from "3.IH"(1)[OF True l r] have rest: "key_in k V \<or> k \<in> set rest \<Longrightarrow> key_in k V'"
      by simp
    from "3.prems"(2) True have "key_in k V \<or> k \<in> set rest"
      by (auto intro: key_in_hk)
    with rest show ?thesis by blast
  next
    case False
    with "3.prems"(1) obtain ls1 V1 ls2 where
      r1: "render fmt g opts child next_prefix seen (rest = []) depth (set_add V child) = (ls1, Inr V1)"
      and r2: "render_children fmt g opts rest next_prefix seen depth V1 = (ls2, Inr V')"
      by (auto split: prod.splits sum.splits)
    from "3.prems"(2) have "key_in k (set_add V child) \<or> k \<in> set rest" by (auto intro: key_in_mem)
    then show ?thesis
    proof
      assume "key_in k (set_add V child)"
      from "3.IH"(2)[OF False r1 this] have "key_in k V1" .
      with "3.IH"(3)[OF False r1[symmetric] refl r2] show ?thesis by simp
    next
      assume "k \<in> set rest"
      with "3.IH"(3)[OF False r1[symmetric] refl r2] show ?thesis by simp
    qed
  qed
qed

lemma ascii_roots_grows:
  "ascii_roots fmt g opts rs V = (ls, Inr V') \<Longrightarrow> key_in k V \<Longrightarrow> key_in k V'"
proof (induction rs arbitrary: V ls)
  case Nil
  then show ?case by simp
next
  case (Cons r rs)
  from Cons.prems(1) obtain ls1 V1 ls2 where
    r1: "render fmt g opts r [] [] True 0 V = (ls1, Inr V1)"
    and r2: "ascii_roots fmt g opts rs V1 = (ls2, Inr V')"
    by (auto split: prod.splits sum.splits)
  from visited_grows(1)[OF r1 Cons.prems(2)] have "key_in k V1" .
  from Cons.IH[OF r2 this] show ?case .
qed

lemma render_in_full:
  assumes "max_depth opts = None" and "\<not> key_in node seen"
    and "node_line fmt g (show_ids opts) node prefix depth = Inr line"
    and "sorted_by_label g (children_of g node) = Inr kids"
  shows "render fmt g opts node prefix seen is_last depth V =
           (case render_children fmt g opts kids (prefix @ indent is_last) (set_add seen node)
                   (depth + 1) V of
              (ls, res) \<Rightarrow> (line # ls, res))"
  using assms by (simp add: render.simps at_limit_def)

subsection \<open>C5: shared subtrees in the ASCII renderer\<close>

text \<open>
  C5, as amended. In the ASCII renderer without the full-duplication option, a child
  that is not yet in the global visited set is put into it and \<^verbatim>\<open>render\<close> is entered for
  it; a child that is in the set, and not on the current ancestor path, is rendered as
  the single line annotated \<^verbatim>\<open>(seen)\<close>, with no children. The set only grows, through a
  subtree, through the children of a node and from one root to the next, and holds every
  child the loop has passed. With full duplication \<^verbatim>\<open>render\<close> is entered for every child.
  When there is no depth limit, \<^verbatim>\<open>render\<close> entered for a node that is not on the ancestor
  path yields the node's line and then the rendering of all its children.
\<close>

theorem shared_subtrees_collapse:
  "(include_dupes opts \<or> \<not> key_in child V \<longrightarrow>
      render_children fmt g opts (child # rest) next_prefix seen depth V =
        (case render fmt g opts child next_prefix seen (rest = []) depth (set_add V child) of
           (ls, Inl e) \<Rightarrow> (ls, Inl e)
         | (ls, Inr V') \<Rightarrow>
             (case render_children fmt g opts rest next_prefix seen depth V' of
                (ls', res) \<Rightarrow> (ls @ ls', res)))) \<and>
   (\<not> include_dupes opts \<longrightarrow> key_in child V \<longrightarrow> \<not> key_in child seen \<longrightarrow>
    label_of g child = JStr l \<longrightarrow>
      render_children fmt g opts (child # rest) next_prefix seen depth V =
        (case render_children fmt g opts rest next_prefix seen depth V of
           (ls, res) \<Rightarrow> ((next_prefix @ ''+-- '' @ l @ ''  (seen)'') # ls, res))) \<and>
   (render fmt g opts node prefix seen is_last depth V = (out, Inr V1) \<longrightarrow>
      key_in k V \<longrightarrow> key_in k V1) \<and>
   (render_children fmt g opts cs next_prefix seen depth V = (out, Inr V1) \<longrightarrow>
      key_in k V \<or> k \<in> set cs \<longrightarrow> key_in k V1) \<and>
   (ascii_roots fmt g opts rs V = (out, Inr V1) \<longrightarrow> key_in k V \<longrightarrow> key_in k V1) \<and>
   (max_depth opts = None \<longrightarrow> \<not> key_in node seen \<longrightarrow>
    node_line fmt g (show_ids opts) node prefix depth = Inr line \<longrightarrow>
    sorted_by_label g (children_of g node) = Inr kids \<longrightarrow>
      render fmt g opts node prefix seen is_last depth V =
        (case render_children fmt g opts kids (prefix @ indent is_last) (set_add seen node)
                (depth + 1) V of
           (ls, res) \<Rightarrow> (line # ls, res)))"
  using render_children_enter[of opts child V fmt g rest next_prefix seen depth]
    render_children_seen[of opts child V g l fmt rest next_prefix seen depth]
    visited_grows(1)[of fmt g opts node prefix seen is_last depth V out V1 k]
    visited_grows(2)[of fmt g opts cs next_prefix seen depth V out V1 k]
    ascii_roots_grows[of fmt g opts rs V out V1 k]
    render_in_full[of opts node seen fmt g prefix depth line kids is_last V]
  by blast

theorem shared_subtrees_collapse_witness:
  "render_children (\<lambda>v. []) graph_diamond plain [KStr ''d''] ''        '' [KStr ''a'', KStr ''c''] 2
     [KStr ''b'', KStr ''d'', KStr ''c''] =
     ([''        +-- d  (seen)''], Inr [KStr ''b'', KStr ''d'', KStr ''c'']) \<and>
   ascii_trees (\<lambda>v. []) graph_diamond [KStr ''a''] plain =
     ([''a'', ''    +-- b'', ''    |   +-- d'', ''    +-- c'', ''        +-- d  (seen)'', []], None) \<and>
   ascii_trees (\<lambda>v. []) graph_diamond [KStr ''a''] (plain\<lparr>include_dupes := True\<rparr>) =
     ([''a'', ''    +-- b'', ''    |   +-- d'', ''    +-- c'', ''        +-- d'', []], None)"
proof -
  have 1: "\<not> include_dupes plain" by (simp add: plain_def)
  have 2: "key_in (KStr ''d'') [KStr ''b'', KStr ''d'', KStr ''c'']" by simp
  have 3: "\<not> key_in (KStr ''d'') [KStr ''a'', KStr ''c'']" by simp
  have 4: "label_of graph_diamond (KStr ''d'') = JStr ''d''" by code_simp
  from shared_subtrees_collapse
    [where opts = plain and child = "KStr ''d''" and V = "[KStr ''b'', KStr ''d'', KStr ''c'']"
       and seen = "[KStr ''a'', KStr ''c'']" and g = graph_diamond and l = "''d''"
       and rest = "[]" and fmt = "\<lambda>v. []" and next_prefix = "''        ''" and depth = 2]
    1 2 3 4
  have "render_children (\<lambda>v. []) graph_diamond plain [KStr ''d''] ''        '' [KStr ''a'', KStr ''c''] 2
     [KStr ''b'', KStr ''d'', KStr ''c''] =
     ([''        +-- d  (seen)''], Inr [KStr ''b'', KStr ''d'', KStr ''c''])"
    by simp
  moreover have "ascii_trees (\<lambda>v. []) graph_diamond [KStr ''a''] plain =
     ([''a'', ''    +-- b'', ''    |   +-- d'', ''    +-- c'', ''        +-- d  (seen)'', []], None)"
    by code_simp
  moreover have "ascii_trees (\<lambda>v. []) graph_diamond [KStr ''a''] (plain\<lparr>include_dupes := True\<rparr>) =
     ([''a'', ''    +-- b'', ''    |   +-- d'', ''    +-- c'', ''        +-- d'', []], None)"
    by code_simp
  ultimately show ?thesis by simp
qed

text \<open>
  The claim as stated fails. With a depth limit of 2, \<open>x\<close> is first reached at the limit
  below \<open>b\<close>: it is put into the visited set but its child \<open>y\<close> is not rendered, and the
  later reference to \<open>x\<close> below \<open>a\<close> is a \<^verbatim>\<open>(seen)\<close> line, so the subtree of \<open>x\<close> is rendered
  nowhere. And a root is not put into the visited set: with the roots \<open>a\<close> and \<open>b\<close> and
  the edge \<open>b \<rightarrow> a\<close>, the later reference to \<open>a\<close> below \<open>b\<close> is expanded again.
\<close>

theorem shared_subtrees_counterexample:
  "ascii_trees (\<lambda>v. []) graph_depth [KStr ''a''] (plain\<lparr>max_depth := Some 2\<rparr>) =
     ([''a'', ''    +-- b'', ''    |   +-- x'', ''    +-- x  (seen)'', []], None) \<and>
   children_of graph_depth (KStr ''x'') = [KStr ''y''] \<and>
   ascii_trees (\<lambda>v. []) graph_two_roots [KStr ''a'', KStr ''b''] plain =
     ([''a'', ''    +-- c'', [], ''b'', ''    +-- a'', ''        +-- c  (seen)'', []], None)"
  by code_simp

subsection \<open>What the traversals over the shared graph compute\<close>

lemma known_ids_st_pure:
  "known_ids_st g ids = (filter (\<lambda>rid. key_in rid (map fst (nodes g))) ids, g)"
  by (induction ids) (simp_all add: nodes_contains_def)

lemma sorted_roots_st_pure: "sorted_roots_st g = (sorted_by_label g (roots g), g)"
  by (simp add: sorted_roots_st_def roots_iter_def sorted_by_label_st_pure)

lemma build_forest_st_pure: "build_forest_st g start_ids = (build_forest g start_ids, g)"
  by (simp add: build_forest_st_def build_forest_def known_ids_st_pure sorted_roots_st_pure
      split: option.splits)

lemma render_st_pure:
  "render_st fmt g opts node prefix seen is_last depth V =
     (render fmt g opts node prefix seen is_last depth V, g)"
  using render_st_dom_total by (simp add: render_st_pure_dom(1))

lemma render_children_st_pure:
  "render_children_st fmt g opts cs next_prefix seen depth V =
     (render_children fmt g opts cs next_prefix seen depth V, g)"
  using render_st_dom_total by (simp add: render_st_pure_dom(2))

lemma ascii_roots_st_pure:
  "ascii_roots_st fmt g opts rs V = (ascii_roots fmt g opts rs V, g)"
proof (induction rs arbitrary: V)
  case Nil
  then show ?case by simp
next
  case (Cons r rs)
  show ?case
    by (simp add: render_st_pure Cons split: prod.splits sum.splits)
qed

lemma ascii_trees_st_pure: "ascii_trees_st fmt g rs opts = (ascii_trees fmt g rs opts, g)"
  by (simp add: ascii_trees_st_def ascii_trees_def ascii_roots_st_pure split: prod.splits sum.splits)

lemma make_node_st_pure: "make_node_st g node seen = (make_node g node seen, g)"
  using make_node_st_dom_total by (simp add: make_node_st_pure_dom(1))

lemma make_nodes_st_pure: "make_nodes_st g ks seen = (make_nodes g ks seen, g)"
  using make_node_st_dom_total by (simp add: make_node_st_pure_dom(2))

lemma to_d3_tree_st_pure: "to_d3_tree_st g rs = (to_d3_tree g rs, g)"
  by (simp add: to_d3_tree_st_def to_d3_tree_def make_node_st_pure make_nodes_st_pure
      split: list.splits sum.splits)

lemma bfs_st_pure: "bfs_st g dq reachable = (bfs g dq reachable, g)"
  by (induction g dq reachable rule: bfs.induct) (simp_all add: edges_get_pure)

lemma reachable_from_st_fold:
  "reachable_from_st g rs reachable =
     (fold (\<lambda>root reachable. bfs g [root] reachable) rs reachable, g)"
  by (induction rs arbitrary: reachable) (simp_all add: bfs_st_pure)

lemma reachable_from_st_pure: "reachable_from_st g rs [] = (reachable_from g rs, g)"
  by (simp add: reachable_from_st_fold reachable_from_def)

lemma dot_nodes_st_pure: "dot_nodes_st fmt g ns = (dot_nodes fmt g ns, g)"
proof (induction ns)
  case Nil
  then show ?case by simp
next
  case (Cons n ns)
  show ?case
    by (cases "label_of g n") (simp_all add: nodes_get_pure Cons split: sum.splits)
qed

lemma dot_edges_st_pure: "dot_edges_st fmt g reachable srcs = (dot_edges fmt g reachable srcs, g)"
proof (induction srcs)
  case Nil
  then show ?case by simp
next
  case (Cons src srcs)
  show ?case
    by (simp add: edges_get_pure Cons split: sum.splits)
qed

lemma to_dot_st_pure: "to_dot_st fmt g rs = (to_dot fmt g rs, g)"
  by (simp add: to_dot_st_def to_dot_def Let_def reachable_from_st_pure dot_nodes_st_pure
      dot_edges_st_pure ebind_def split: sum.splits)

lemma edges_getitem_inserts:
  "dict_get (edges g) k = None \<Longrightarrow> snd (edges_getitem g k) = g\<lparr>edges := edges g @ [(k, [])]\<rparr>"
  by (simp add: edges_getitem_def edges_index_def)

subsection \<open>C9: the traversals leave the graph as it is\<close>

lemma edges_getitem_known:
  "dict_get (edges g) k = Some cs \<Longrightarrow> edges_getitem g k = (cs, g)"
  by (simp add: edges_getitem_def edges_index_def)

text \<open>
  C9. For every graph and every choice of start ids, roots and options, \<^verbatim>\<open>build_forest\<close>,
  the ASCII renderer, the DOT emitter and the tree-structure builder, run on the graph as
  a shared object that every access hands on, end with the graph they were given, whether
  they return or raise: its node map, its edge map and its root set are the same, and
  no key has been inserted into the edge map. What they compute is what the functions
  that only read the graph compute.
\<close>

theorem traversals_leave_graph_unchanged:
  "build_forest_st g start_ids = (build_forest g start_ids, g) \<and>
   ascii_trees_st fmt g rs opts = (ascii_trees fmt g rs opts, g) \<and>
   to_dot_st fmt g rs = (to_dot fmt g rs, g) \<and>
   to_d3_tree_st g rs = (to_d3_tree g rs, g)"
  by (simp add: build_forest_st_pure ascii_trees_st_pure to_dot_st_pure to_d3_tree_st_pure)

theorem traversals_leave_graph_unchanged_witness:
  "build_forest_st graph_diamond None = (Inr [KStr ''a''], graph_diamond) \<and>
   ascii_trees_st (\<lambda>v. []) graph_diamond [KStr ''a''] plain =
     (([''a'', ''    +-- b'', ''    |   +-- d'', ''    +-- c'', ''        +-- d  (seen)'', []], None),
      graph_diamond) \<and>
   snd (to_dot_st (\<lambda>v. []) graph_diamond [KStr ''a'']) = graph_diamond \<and>
   snd (to_d3_tree_st graph_diamond [KStr ''a'']) = graph_diamond \<and>
   edges (snd (edges_getitem graph_diamond (KStr ''d''))) = edges graph_diamond @ [(KStr ''d'', [])]"
proof -
  have 1: "build_forest graph_diamond None = Inr [KStr ''a'']" by code_simp
  have 2: "ascii_trees (\<lambda>v. []) graph_diamond [KStr ''a''] plain =
     ([''a'', ''    +-- b'', ''    |   +-- d'', ''    +-- c'', ''        +-- d  (seen)'', []], None)"
    by code_simp
  have 3: "edges (snd (edges_getitem graph_diamond (KStr ''d''))) =
             edges graph_diamond @ [(KStr ''d'', [])]"
    by (simp add: edges_getitem_def edges_index_def dict_get_def graph_diamond_def)
  from traversals_leave_graph_unchanged
         [of graph_diamond None "\<lambda>v. []" "[KStr ''a'']" plain] 1 2 3
  show ?thesis by simp
qed

subsection \<open>The edges that the SPDX relationship loop adds\<close>

lemma spdx_relationship_fields:
  assumes "spdx_relationship rel s = Inr s'"
  shows "\<exists>rt src dst.
           rel_type rel = Inr rt \<and>
           get_or rel [''spdxElementId'', ''sourceElement''] = Inr src \<and>
           get_or rel [''relatedSpdxElement'', ''targetElement''] = Inr dst \<and>
           (truthy src \<and> truthy dst \<longrightarrow> (\<exists>x y. to_key src = Inr x \<and> to_key dst = Inr y)) \<and>
           (\<not> (truthy src \<and> truthy dst) \<longrightarrow> s' = s)"
  using assms by (auto simp: spdx_relationship_def ebind_eq_Inr Let_def split: if_splits)

lemma has_edge_same_edges: "edges s' = edges s \<Longrightarrow> has_edge s' = has_edge s"
  by (simp add: has_edge_def fun_eq_iff)

lemma spdx_relationship_states:
  assumes "spdx_relationship rel s = Inr s'"
  shows "has_edge s' a b \<longleftrightarrow> has_edge s a b \<or> states_edge rel a b"
proof -
  from spdx_relationship_fields[OF assms] obtain rt src dst where
    rt: "rel_type rel = Inr rt"
    and src: "get_or rel [''spdxElementId'', ''sourceElement''] = Inr src"
    and dst: "get_or rel [''relatedSpdxElement'', ''targetElement''] = Inr dst"
    and skip: "\<not> (truthy src \<and> truthy dst) \<Longrightarrow> s' = s"
    by blast
  show ?thesis
  proof (cases "truthy src \<and> truthy dst")
    case False
    then have n: "\<not> states_edge rel a b" using src dst by (auto simp del: get_or.simps)
    show ?thesis unfolding skip[OF False] using n by blast
  next
    case True
    then have t: "truthy src" "truthy dst" by simp_all
    from spdx_relationship_step[OF assms src dst t rt] obtain x y where
      x: "to_key src = Inr x" and y: "to_key dst = Inr y"
      and rev: "rt \<in> set reverse_types \<Longrightarrow>
                  has_edge s' a b \<longleftrightarrow> has_edge s a b \<or> (hk a = hk y \<and> hk b = hk x)"
      and fwd: "rt \<in> set forward_types \<Longrightarrow>
                  has_edge s' a b \<longleftrightarrow> has_edge s a b \<or> (hk a = hk x \<and> hk b = hk y)"
      and other: "rt \<notin> set reverse_types \<and> rt \<notin> set forward_types \<Longrightarrow> edges s' = edges s"
      by blast
    have st: "states_edge rel a b \<longleftrightarrow>
                (rt \<in> set forward_types \<and> hk a = hk x \<and> hk b = hk y) \<or>
                (rt \<in> set reverse_types \<and> hk a = hk y \<and> hk b = hk x)"
      using rt src dst t x y by (auto simp del: get_or.simps)
    consider (r) "rt \<in> set reverse_types" | (f) "rt \<in> set forward_types"
      | (o) "rt \<notin> set reverse_types \<and> rt \<notin> set forward_types" by blast
    then show ?thesis
    proof cases
      case r
      with forward_not_reverse[of rt] have "rt \<notin> set forward_types" by blast
      with rev[OF r] r show ?thesis unfolding st by blast
    next
      case f
      with forward_not_reverse[of rt] have "rt \<notin> set reverse_types" by blast
      with fwd[OF f] f show ?thesis unfolding st by blast
    next
      case o
      from has_edge_same_edges[OF other[OF o]] o show ?thesis unfolding st by simp
    qed
  qed
qed

lemma spdx_relationships_states:
  "spdx_relationships rels s = Inr s' \<Longrightarrow>
     has_edge s' a b \<longleftrightarrow> has_edge s a b \<or> (\<exists>rel \<in> set rels. states_edge rel a b)"
proof (induction rels arbitrary: s)
  case Nil
  then show ?case by simp
next
  case (Cons rel rels)
  from Cons.prems obtain s1 where 1: "spdx_relationship rel s = Inr s1"
    and r: "spdx_relationships rels s1 = Inr s'"
    by (auto simp: ebind_eq_Inr)
  have "has_edge s' a b \<longleftrightarrow> has_edge s1 a b \<or> (\<exists>rel \<in> set rels. states_edge rel a b)"
    by (rule Cons.IH[OF r])
  also have "has_edge s1 a b \<longleftrightarrow> has_edge s a b \<or> states_edge rel a b"
    by (rule spdx_relationship_states[OF 1])
  finally show ?case by (simp add: disj_assoc)
qed

lemma spdx_relationships_fields:
  "spdx_relationships rels s = Inr s' \<Longrightarrow> rel \<in> set rels \<Longrightarrow>
     \<exists>rt src dst.
       rel_type rel = Inr rt \<and>
       get_or rel [''spdxElementId'', ''sourceElement''] = Inr src \<and>
       get_or rel [''relatedSpdxElement'', ''targetElement''] = Inr dst \<and>
       (truthy src \<and> truthy dst \<longrightarrow> (\<exists>x y. to_key src = Inr x \<and> to_key dst = Inr y))"
proof (induction rels arbitrary: s)
  case Nil
  then show ?case by simp
next
  case (Cons r rels)
  from Cons.prems(1) obtain s1 where 1: "spdx_relationship r s = Inr s1"
    and rest: "spdx_relationships rels s1 = Inr s'"
    by (auto simp: ebind_eq_Inr)
  show ?case
  proof (cases "rel = r")
    case True
    with spdx_relationship_fields[OF 1] show ?thesis by blast
  next
    case False
    with Cons.prems(2) have "rel \<in> set rels" by simp
    from Cons.IH[OF rest this] show ?thesis .
  qed
qed

lemma spdx_describes_edges: "spdx_describes rids s = Inr s' \<Longrightarrow> edges s' = edges s"
proof (induction rids arbitrary: s)
  case Nil
  then show ?case by simp
next
  case (Cons rid rids)
  from Cons.prems obtain r where
    rest: "spdx_describes rids
             (if key_in r (map fst (nodes s)) then s\<lparr>roots := set_add (roots s) r\<rparr> else s) = Inr s'"
    by (auto simp: ebind_eq_Inr)
  from Cons.IH[OF rest] show ?case by (simp split: if_splits)
qed

lemma from_spdx_edges:
  assumes "from_spdx fmt obj = Inr g"
  shows "\<exists>rv rels s1 s2.
           get_default obj ''relationships'' (JArr []) = Inr rv \<and>
           py_iter (py_or rv (JArr [])) = Inr rels \<and>
           spdx_relationships rels s1 = Inr s2 \<and> edges s1 = [] \<and> edges g = edges s2"
proof -
  from assms obtain pkgs s1 rv rels s2 desc s3 where
    p: "spdx_packages fmt pkgs SBOM = Inr s1" and
    rv: "get_default obj ''relationships'' (JArr []) = Inr rv" and
    it: "py_iter (py_or rv (JArr [])) = Inr rels" and
    r: "spdx_relationships rels s1 = Inr s2" and
    d: "spdx_describes desc s2 = Inr s3" and
    g: "g = (if roots s3 = []
             then s3\<lparr>roots := filter (\<lambda>k. \<not> key_in k (all_children (edges s3))) (map fst (nodes s3))\<rparr>
             else s3)"
    by (auto simp: from_spdx_def ebind_eq_Inr split: if_splits)
  from spdx_packages_extends[OF p] have "edges s1 = []" by (simp add: SBOM_def)
  moreover from spdx_describes_edges[OF d] g have "edges g = edges s2" by simp
  ultimately show ?thesis using rv it r by blast
qed

subsection \<open>C2: the direction of SPDX relationship edges\<close>

text \<open>
  C2. Whenever the SPDX normalizer returns a graph, it has read every entry of the
  \<^verbatim>\<open>relationships\<close> list, and for every entry that has both a source id and a target id
  (both truthy), with its \<^verbatim>\<open>relationshipType\<close> uppercased and hyphens replaced by
  underscores: if the type is in the reverse set the returned graph has the edge
  target \<open>\<rightarrow>\<close> source, and if it is in the forward set the returned graph has the edge
  source \<open>\<rightarrow>\<close> target. The returned graph has no other edge: every edge of it is the
  source \<open>\<rightarrow>\<close> target edge of an entry of a forward type or the target \<open>\<rightarrow>\<close> source edge of
  an entry of a reverse type. So an entry of a reverse type never adds its
  source \<open>\<rightarrow>\<close> target edge, and an entry of any other type adds no edge.
\<close>

theorem spdx_edges_follow_relationships:
  assumes "from_spdx fmt obj = Inr g"
  shows "\<exists>rv rels.
           get_default obj ''relationships'' (JArr []) = Inr rv \<and>
           py_iter (py_or rv (JArr [])) = Inr rels \<and>
           (\<forall>rel \<in> set rels.
              \<exists>rt src dst.
                rel_type rel = Inr rt \<and>
                get_or rel [''spdxElementId'', ''sourceElement''] = Inr src \<and>
                get_or rel [''relatedSpdxElement'', ''targetElement''] = Inr dst \<and>
                (truthy src \<and> truthy dst \<longrightarrow>
                   (\<exists>x y. to_key src = Inr x \<and> to_key dst = Inr y \<and>
                      (rt \<in> set reverse_types \<longrightarrow> has_edge g y x) \<and>
                      (rt \<in> set forward_types \<longrightarrow> has_edge g x y)))) \<and>
           (\<forall>a b. has_edge g a b \<longleftrightarrow>
              (\<exists>rel \<in> set rels.
                 \<exists>rt src dst x y.
                   rel_type rel = Inr rt \<and>
                   get_or rel [''spdxElementId'', ''sourceElement''] = Inr src \<and>
                   get_or rel [''relatedSpdxElement'', ''targetElement''] = Inr dst \<and>
                   truthy src \<and> truthy dst \<and> to_key src = Inr x \<and> to_key dst = Inr y \<and>
                   ((rt \<in> set forward_types \<and> hk a = hk x \<and> hk b = hk y) \<or>
                    (rt \<in> set reverse_types \<and> hk a = hk y \<and> hk b = hk x))))"
proof -
  from from_spdx_edges[OF assms] obtain rv rels s1 s2 where
    rv: "get_default obj ''relationships'' (JArr []) = Inr rv" and
    it: "py_iter (py_or rv (JArr [])) = Inr rels" and
    r: "spdx_relationships rels s1 = Inr s2" and
    e1: "edges s1 = []" and e: "edges g = edges s2"
    by blast
  have none: "\<not> has_edge s1 a b" for a b
    by (simp add: has_edge_def e1 dict_get_def)
  have B: "has_edge g a b \<longleftrightarrow> (\<exists>rel \<in> set rels. states_edge rel a b)" for a b
    using spdx_relationships_states[OF r, of a b] none[of a b] has_edge_same_edges[OF e]
    by simp
  have A: "\<exists>rt src dst.
             rel_type rel = Inr rt \<and>
             get_or rel [''spdxElementId'', ''sourceElement''] = Inr src \<and>
             get_or rel [''relatedSpdxElement'', ''targetElement''] = Inr dst \<and>
             (truthy src \<and> truthy dst \<longrightarrow>
                (\<exists>x y. to_key src = Inr x \<and> to_key dst = Inr y \<and>
                   (rt \<in> set reverse_types \<longrightarrow> has_edge g y x) \<and>
                   (rt \<in> set forward_types \<longrightarrow> has_edge g x y)))"
    if rel: "rel \<in> set rels" for rel
  proof -
    from spdx_relationships_fields[OF r rel] obtain rt src dst where
      rt: "rel_type rel = Inr rt"
      and src: "get_or rel [''spdxElementId'', ''sourceElement''] = Inr src"
      and dst: "get_or rel [''relatedSpdxElement'', ''targetElement''] = Inr dst"
      and keys: "truthy src \<and> truthy dst \<longrightarrow> (\<exists>x y. to_key src = Inr x \<and> to_key dst = Inr y)"
      by blast
    have "\<exists>x y. to_key src = Inr x \<and> to_key dst = Inr y \<and>
                (rt \<in> set reverse_types \<longrightarrow> has_edge g y x) \<and>
                (rt \<in> set forward_types \<longrightarrow> has_edge g x y)"
      if t: "truthy src \<and> truthy dst"
    proof -
      from keys t obtain x y where x: "to_key src = Inr x" and y: "to_key dst = Inr y" by blast
      have "states_edge rel y x" if "rt \<in> set reverse_types"
        using rt src dst t x y that by blast
      then have 1: "rt \<in> set reverse_types \<longrightarrow> has_edge g y x"
        unfolding B using rel by blast
      have "states_edge rel x y" if "rt \<in> set forward_types"
        using rt src dst t x y that by blast
      then have 2: "rt \<in> set forward_types \<longrightarrow> has_edge g x y"
        unfolding B using rel by blast
      from x y 1 2 show ?thesis by blast
    qed
    with rt src dst show ?thesis by blast
  qed
  from rv it A B show ?thesis by blast
qed

theorem spdx_edges_follow_relationships_witness:
  "from_spdx (\<lambda>v. []) doc_reverse = Inr graph_reverse \<and>
   rel_type rel_ab = Inr ''RUNTIME_DEPENDENCY_OF'' \<and>
   ''RUNTIME_DEPENDENCY_OF'' \<in> set reverse_types \<and>
   has_edge graph_reverse (KStr ''Y'') (KStr ''X'') \<and>
   \<not> has_edge graph_reverse (KStr ''X'') (KStr ''Y'') \<and>
   \<not> has_edge graph_reverse (KStr ''X'') (KStr ''Z'') \<and>
   \<not> has_edge graph_reverse (KStr ''Z'') (KStr ''X'')"
proof -
  have s: "from_spdx (\<lambda>v. []) doc_reverse = Inr graph_reverse"
    by code_simp
  have rv: "get_default doc_reverse ''relationships'' (JArr []) =
              Inr (JArr [rel_ab,
                         JObj [(''relationshipType'', JStr ''CONTAINS''),
                               (''spdxElementId'', JStr ''X''), (''relatedSpdxElement'', JStr ''Z'')]])"
    by (simp add: doc_reverse_def get_default_def)
  have rt: "rel_type rel_ab = Inr ''RUNTIME_DEPENDENCY_OF''"
    by code_simp
  have src: "get_or rel_ab [''spdxElementId'', ''sourceElement''] = Inr (JStr ''X'')"
    by code_simp
  have dst: "get_or rel_ab [''relatedSpdxElement'', ''targetElement''] = Inr (JStr ''Y'')"
    by code_simp
  have rev: "''RUNTIME_DEPENDENCY_OF'' \<in> set reverse_types"
    by (simp add: reverse_types_def)
  from spdx_edges_follow_relationships[OF s] obtain rv' rels where
    rv': "get_default doc_reverse ''relationships'' (JArr []) = Inr rv'" and
    it: "py_iter (py_or rv' (JArr [])) = Inr rels" and
    A: "\<forall>rel \<in> set rels.
          \<exists>rt src dst.
            rel_type rel = Inr rt \<and>
            get_or rel [''spdxElementId'', ''sourceElement''] = Inr src \<and>
            get_or rel [''relatedSpdxElement'', ''targetElement''] = Inr dst \<and>
            (truthy src \<and> truthy dst \<longrightarrow>
               (\<exists>x y. to_key src = Inr x \<and> to_key dst = Inr y \<and>
                  (rt \<in> set reverse_types \<longrightarrow> has_edge graph_reverse y x) \<and>
                  (rt \<in> set forward_types \<longrightarrow> has_edge graph_reverse x y)))"
    by blast
  from rv rv' it have "rel_ab \<in> set rels"
    by (auto simp: py_iter_def py_or_def)
  with A obtain rt' src' dst' where
    "rel_type rel_ab = Inr rt'"
    "get_or rel_ab [''spdxElementId'', ''sourceElement''] = Inr src'"
    "get_or rel_ab [''relatedSpdxElement'', ''targetElement''] = Inr dst'"
    and k: "truthy src' \<and> truthy dst' \<longrightarrow>
       (\<exists>x y. to_key src' = Inr x \<and> to_key dst' = Inr y \<and>
          (rt' \<in> set reverse_types \<longrightarrow> has_edge graph_reverse y x) \<and>
          (rt' \<in> set forward_types \<longrightarrow> has_edge graph_reverse x y))"
    by blast
  with rt src dst have "rt' = ''RUNTIME_DEPENDENCY_OF''" "src' = JStr ''X''" "dst' = JStr ''Y''"
    by simp_all
  with k rev have 1: "has_edge graph_reverse (KStr ''Y'') (KStr ''X'')"
    by (auto simp: to_key_def)
  have 2: "\<not> has_edge graph_reverse (KStr ''X'') (KStr ''Y'') \<and>
           \<not> has_edge graph_reverse (KStr ''X'') (KStr ''Z'') \<and>
           \<not> has_edge graph_reverse (KStr ''Z'') (KStr ''X'')"
    by (simp add: has_edge_def graph_reverse_def dict_get_def)
  from s rt rev 1 2 show ?thesis by simp
qed

text \<open>For a relationship of an id to itself, target \<open>\<rightarrow>\<close> source and source \<open>\<rightarrow>\<close> target are
  one edge, and the entry adds it.\<close>

lemma spdx_self_relationship:
  "rel_type rel_self = Inr ''BUILD_DEPENDENCY_OF'' \<and>
   ''BUILD_DEPENDENCY_OF'' \<in> set reverse_types \<and>
   get_or rel_self [''spdxElementId'', ''sourceElement''] = Inr (JStr ''A'') \<and>
   get_or rel_self [''relatedSpdxElement'', ''targetElement''] = Inr (JStr ''A'') \<and>
   from_spdx (\<lambda>v. []) doc_self =
     Inr \<lparr>nodes = [(KStr ''A'', JStr ''A'')], edges = [(KStr ''A'', [KStr ''A''])], roots = []\<rparr> \<and>
   has_edge \<lparr>nodes = [(KStr ''A'', JStr ''A'')], edges = [(KStr ''A'', [KStr ''A''])], roots = []\<rparr>
     (KStr ''A'') (KStr ''A'')"
  by code_simp

end
